theory Spec2Isabelle
  imports Main
begin

section \<open>Python values and exceptions\<close>

text \<open>
  The exceptions the two modules can raise. \<open>RuntimeError\<close> is what the U-Net code raises
  for a bad configuration and for a bad input shape. \<open>FloatChannels\<close> is not a Python
  exception: it marks the point where a float would be used as a channel count (see
  \<open>int_num_features\<close> below).
\<close>

datatype error =
    RuntimeError
  | IndexError
  | AttributeError
  | TypeError
  | AssertionError
  | NotImplementedError
  | KeyError
  | ZeroDivisionError
  | OverflowError
  | FloatChannels

definition and_then :: "error + 'a \<Rightarrow> ('a \<Rightarrow> error + 'b) \<Rightarrow> error + 'b" where
  "and_then r f = (case r of Inl e \<Rightarrow> Inl e | Inr x \<Rightarrow> f x)"

text \<open>\<open>xs[i]\<close> of a Python sequence: a negative index counts from the end.\<close>

definition item :: "'a list \<Rightarrow> int \<Rightarrow> error + 'a" where
  "item xs i =
     (let j = (if i < 0 then i + int (length xs) else i)
      in if j < 0 \<or> int (length xs) \<le> j then Inl IndexError else Inr (xs ! nat j))"

text \<open>\<open>xs[a:b]\<close> of a Python sequence, with the clamping of both bounds.\<close>

definition slice_bound :: "nat \<Rightarrow> int \<Rightarrow> nat" where
  "slice_bound n i = (if i < 0 then nat (max 0 (i + int n)) else min n (nat i))"

definition py_slice :: "'a list \<Rightarrow> int \<Rightarrow> int \<Rightarrow> 'a list" where
  "py_slice xs a b =
     (let lo = slice_bound (length xs) a; hi = slice_bound (length xs) b
      in take (hi - lo) (drop lo xs))"

text \<open>\<open>range(n)\<close>.\<close>

definition range :: "int \<Rightarrow> int list" where
  "range n = [0..n - 1]"

text \<open>
  Python numbers. An integer is unbounded. A float is an IEEE double, whose value is not
  computed here: a float is kept as the expression that computes it, \<open>FPow b e\<close> for
  \<open>float(b) ** float(e)\<close> and \<open>FMul a f\<close> for \<open>float(a) * f\<close>. The conversion of an
  integer to a float raises \<open>OverflowError\<close> when the integer rounds to \<open>2^1024\<close> or
  beyond.
\<close>

datatype pyfloat = FPow int int | FMul int pyfloat

datatype pynum = PyInt int | PyFloat pyfloat

definition beyond_double :: "int \<Rightarrow> bool" where
  "beyond_double n \<longleftrightarrow> 2 ^ 1024 - 2 ^ 970 \<le> \<bar>n\<bar>"

text \<open>
  \<open>b ** e\<close> on Python integers: an integer for an exponent that is not negative; for a
  negative exponent both operands are converted and the result is a float, and a zero
  base raises \<open>ZeroDivisionError\<close>.
\<close>

definition py_pow :: "int \<Rightarrow> int \<Rightarrow> error + pynum" where
  "py_pow b e =
     (if 0 \<le> e then Inr (PyInt (b ^ nat e))
      else if beyond_double b \<or> beyond_double e then Inl OverflowError
      else if b = 0 then Inl ZeroDivisionError
      else Inr (PyFloat (FPow b e)))"

text \<open>\<open>a * p\<close> for an integer \<open>a\<close>: with a float the integer is converted.\<close>

definition py_mul :: "int \<Rightarrow> pynum \<Rightarrow> error + pynum" where
  "py_mul a p =
     (case p of
        PyInt n \<Rightarrow> Inr (PyInt (a * n))
      | PyFloat f \<Rightarrow> if beyond_double a then Inl OverflowError else Inr (PyFloat (FMul a f)))"

section \<open>UNetBase: settings and channel counts\<close>

record upsample_kwargs =
  scale_factor :: int
  mode :: "string option"
  align_corners :: "bool option"

text \<open>
  The settings related members of a \<open>UNetBase\<close> object. All of them are assigned in
  \<open>__init__\<close> before the first factory method is called.
\<close>

record settings =
  in_channels :: int
  initial_features :: int
  dim :: int
  out_channels :: int
  depth :: int
  gain :: int
  upsample_kwargs :: upsample_kwargs

definition get_num_features :: "settings \<Rightarrow> string \<Rightarrow> int option \<Rightarrow> error + pynum" where
  "get_num_features self part depth_index =
     (if part \<in> set [''down'', ''up''] then
        (case depth_index of
           None \<Rightarrow> Inl TypeError
         | Some di \<Rightarrow> and_then (py_pow (gain self) (di + 1)) (py_mul (initial_features self)))
      else if part = ''bottom'' then
        and_then (py_pow (gain self) (depth self + 1)) (py_mul (initial_features self))
      else Inl RuntimeError)"

text \<open>
  The construction and the forward pass use the results of \<open>get_num_features\<close> as channel
  counts: they are handed to the factories and compared with sizes. Wherever the module
  calls \<open>get_num_features\<close> with a depth that is not negative the result is an integer.
  A float as a channel count (a negative depth gives one) is not followed into the
  factories and the assertions: \<open>FloatChannels\<close> marks it.
\<close>

definition int_num_features :: "settings \<Rightarrow> string \<Rightarrow> int option \<Rightarrow> error + int" where
  "int_num_features self part depth_index =
     and_then (get_num_features self part depth_index)
       (\<lambda>p. case p of PyInt n \<Rightarrow> Inr n | PyFloat f \<Rightarrow> Inl FloatChannels)"

definition inv_index :: "settings \<Rightarrow> int \<Rightarrow> int" where
  "inv_index self index = depth self - 1 - index"

definition make_upsample_kwargs :: "int \<Rightarrow> string option \<Rightarrow> upsample_kwargs" where
  "make_upsample_kwargs self_dim upsample_mode =
     (let um =
        (case upsample_mode of
           None \<Rightarrow>
             if self_dim = 1 then Some ''linear''
             else if self_dim = 2 then Some ''bilinear''
             else if self_dim = 3 then Some ''trilinear''
             else None
         | Some s \<Rightarrow> Some s)
      in \<lparr> scale_factor = 2, mode = um,
           align_corners =
             (if um \<in> set [Some ''linear'', Some ''bilinear'', Some ''trilinear'']
              then Some False else None) \<rparr>)"

section \<open>Operators, the side-output dictionary and the model object\<close>

text \<open>
  Tensors are values of an arbitrary type \<open>'t\<close>. What torch provides for them is a
  parameter: \<open>tsize\<close> is \<open>input.shape\<close> (also \<open>size()\<close>), \<open>cat\<close> is \<open>torch.cat\<close>.
  An operator (an \<open>nn.Module\<close>) is a callable on tensors that may raise.
\<close>

type_synonym 't op = "'t \<Rightarrow> error + 't"

record 't torch =
  tsize :: "'t \<Rightarrow> nat list"
  cat :: "'t list \<Rightarrow> int \<Rightarrow> error + 't"

text \<open>
  The layer constructors of torch and of the \<open>layers\<close> package, and \<open>get_activation\<close>:
  none of them is part of the two modules, so they are parameters as well.
\<close>

record 't layers =
  MaxPool1d :: "int \<Rightarrow> int \<Rightarrow> error + 't op"
  MaxPool2d :: "int \<Rightarrow> int \<Rightarrow> error + 't op"
  MaxPool3d :: "int \<Rightarrow> int \<Rightarrow> error + 't op"
  InfernoUpsample :: "upsample_kwargs \<Rightarrow> error + 't op"
  ConvELU :: "int \<Rightarrow> int \<Rightarrow> int \<Rightarrow> int \<Rightarrow> error + 't op"
  get_activation :: "string option \<Rightarrow> error + unit"

text \<open>\<open>nn.Sequential(a, b)\<close>.\<close>

definition Sequential :: "'t op \<Rightarrow> 't op \<Rightarrow> 't op" where
  "Sequential a b = (\<lambda>x. and_then (a x) b)"

text \<open>
  Keys of \<open>_side_out_num_channels\<close>: a string (\<open>'start'\<close>, \<open>'bottom'\<close>, \<open>'end'\<close>) or a
  pair (\<open>('down', d)\<close>, \<open>('up', d)\<close>). The \<open>OrderedDict\<close> is an association list in
  insertion order; assigning to a key that is present keeps its position.
\<close>

datatype key = KStr string | KTup string int

type_synonym odict = "(key \<times> int) list"

definition od_in :: "key \<Rightarrow> odict \<Rightarrow> bool" where
  "od_in k d = (k \<in> set (map fst d))"

definition od_set :: "key \<Rightarrow> int \<Rightarrow> odict \<Rightarrow> odict" where
  "od_set k v d =
     (if od_in k d then map (\<lambda>kv. if fst kv = k then (k, v) else kv) d else d @ [(k, v)])"

text \<open>
  The three factory methods a deriving class can override. The methods read the settings
  of \<open>self\<close>.
\<close>

record 't factories =
  conv_op_factory ::
    "settings \<Rightarrow> int \<Rightarrow> int \<Rightarrow> string \<Rightarrow> int option \<Rightarrow> error + ('t op \<times> bool)"
  downsample_op_factory :: "settings \<Rightarrow> int \<Rightarrow> error + 't op"
  upsample_op_factory :: "settings \<Rightarrow> int \<Rightarrow> error + 't op"

record 't unet =
  conf :: settings
  side_out_num_channels :: odict
  start_block :: "'t op"
  conv_down_ops :: "'t op list"
  downsample_ops :: "'t op list"
  conv_bottom_op :: "'t op"
  upsample_ops :: "'t op list"
  conv_up_ops :: "'t op list"
  end_block :: "'t op"
  out_channels_side_out :: "int list"

section \<open>UNetBase: construction\<close>

definition init_start ::
  "'t factories \<Rightarrow> settings \<Rightarrow> odict \<Rightarrow> error + ('t op \<times> odict)" where
  "init_start F self d =
     and_then (conv_op_factory F self (in_channels self) (initial_features self) ''start'' None)
       (\<lambda>(conv, return_op_res).
          Inr (conv,
               if return_op_res then od_set (KStr ''start'') (initial_features self) d else d))"

fun init_downstream_loop ::
  "'t factories \<Rightarrow> settings \<Rightarrow> int list \<Rightarrow> int \<Rightarrow> 't op list \<Rightarrow> odict
     \<Rightarrow> error + ('t op list \<times> odict)" where
  "init_downstream_loop F self [] current_in_channels conv_down d = Inr (conv_down, d)"
| "init_downstream_loop F self (depth_index # rest) current_in_channels conv_down d =
     and_then (int_num_features self ''down'' (Some depth_index)) (\<lambda>oc.
     and_then (conv_op_factory F self current_in_channels oc ''down'' (Some depth_index))
       (\<lambda>(op, return_op_res).
          init_downstream_loop F self rest oc (conv_down @ [op])
            (if return_op_res then od_set (KTup ''down'' depth_index) oc d else d)))"

definition init_downstream ::
  "'t factories \<Rightarrow> settings \<Rightarrow> odict \<Rightarrow> error + ('t op list \<times> odict)" where
  "init_downstream F self d =
     init_downstream_loop F self (range (depth self)) (initial_features self) [] d"

definition init_bottom ::
  "'t factories \<Rightarrow> settings \<Rightarrow> odict \<Rightarrow> error + ('t op \<times> odict)" where
  "init_bottom F self d =
     and_then (int_num_features self ''down'' (Some (depth self - 1))) (\<lambda>ic.
     and_then (int_num_features self ''bottom'' None) (\<lambda>oc.
     and_then (conv_op_factory F self ic oc ''bottom'' None)
       (\<lambda>(op, return_op_res).
          Inr (op, if return_op_res then od_set (KStr ''bottom'') oc d else d))))"

fun init_upstream_loop ::
  "'t factories \<Rightarrow> settings \<Rightarrow> int list \<Rightarrow> int \<Rightarrow> 't op list \<Rightarrow> odict
     \<Rightarrow> error + ('t op list \<times> odict)" where
  "init_upstream_loop F self [] in_channels_from_below conv_up d = Inr (conv_up, d)"
| "init_upstream_loop F self (i # rest) in_channels_from_below conv_up d =
     (let depth_index = inv_index self i in
      and_then (int_num_features self ''down'' (Some depth_index)) (\<lambda>in_channels_from_left.
      and_then (int_num_features self ''up'' (Some depth_index)) (\<lambda>oc.
      and_then (conv_op_factory F self (in_channels_from_below + in_channels_from_left) oc
                  ''up'' (Some depth_index))
        (\<lambda>(op, return_op_res).
           init_upstream_loop F self rest oc (conv_up @ [op])
             (if return_op_res then od_set (KTup ''up'' depth_index) oc d else d)))))"

definition init_upstream ::
  "'t factories \<Rightarrow> settings \<Rightarrow> odict \<Rightarrow> error + ('t op list \<times> odict)" where
  "init_upstream F self d =
     and_then (int_num_features self ''bottom'' None) (\<lambda>in_channels_from_below.
       init_upstream_loop F self (range (depth self)) in_channels_from_below [] d)"

definition init_end ::
  "'t factories \<Rightarrow> settings \<Rightarrow> odict \<Rightarrow> error + ('t op \<times> odict)" where
  "init_end F self d =
     and_then (int_num_features self ''up'' (Some 0)) (\<lambda>printed.
     and_then (int_num_features self ''up'' (Some 0)) (\<lambda>ic.
     and_then (conv_op_factory F self ic (out_channels self) ''end'' None)
       (\<lambda>(conv, return_op_res).
          Inr (conv, od_set (KStr ''end'') (out_channels self) d))))"

text \<open>A list comprehension whose element expression may raise.\<close>

fun comprehension :: "('a \<Rightarrow> error + 'b) \<Rightarrow> 'a list \<Rightarrow> error + 'b list" where
  "comprehension f [] = Inr []"
| "comprehension f (x # xs) =
     and_then (f x) (\<lambda>y. and_then (comprehension f xs) (\<lambda>ys. Inr (y # ys)))"

definition init_downsample :: "'t factories \<Rightarrow> settings \<Rightarrow> error + 't op list" where
  "init_downsample F self = comprehension (downsample_op_factory F self) (range (depth self))"

definition init_upsample :: "'t factories \<Rightarrow> settings \<Rightarrow> error + 't op list" where
  "init_upsample F self =
     comprehension (\<lambda>i. upsample_op_factory F self (inv_index self i)) (range (depth self))"

text \<open>
  The second half of \<open>UNetBase.__init__\<close>, once the settings are assigned: all parts of
  the U-Net are initialised, in this order, and the bookkeeping of the side outputs is
  read off the dictionary.
\<close>

definition init_parts :: "'t factories \<Rightarrow> settings \<Rightarrow> error + 't unet" where
  "init_parts F self =
     and_then (init_start F self []) (\<lambda>(start, d1).
     and_then (init_downstream F self d1) (\<lambda>(conv_down, d2).
     and_then (init_bottom F self d2) (\<lambda>(bottom, d3).
     and_then (init_upstream F self d3) (\<lambda>(conv_up, d4).
     and_then (init_end F self d4) (\<lambda>(end_op, d5).
     and_then (init_downsample F self) (\<lambda>down_ops.
     and_then (init_upsample F self) (\<lambda>up_ops.
       Inr \<lparr> conf = self, side_out_num_channels = d5,
             start_block = start, conv_down_ops = conv_down,
             downsample_ops = down_ops, conv_bottom_op = bottom,
             upsample_ops = up_ops, conv_up_ops = conv_up,
             end_block = end_op,
             out_channels_side_out = map snd d5 \<rparr>)))))))"

text \<open>
  \<open>UNetBase.__init__\<close>. With \<open>out_channels=None\<close> it calls \<open>self.get_num_channels(1)\<close>;
  neither \<open>UNetBase\<close> nor \<open>UNet\<close> (nor \<open>nn.Module\<close>) has a method of that name, the
  method of this class is \<open>get_num_features\<close>, so the attribute lookup raises.
\<close>

definition UNetBase_init ::
  "'t factories \<Rightarrow> int \<Rightarrow> int \<Rightarrow> int \<Rightarrow> int option \<Rightarrow> int \<Rightarrow> int \<Rightarrow> string option
     \<Rightarrow> error + 't unet" where
  "UNetBase_init F dim_arg in_channels_arg initial_features_arg out_channels_arg depth_arg
       gain_arg upsample_mode =
     (if dim_arg \<notin> set [1, 2, 3] then Inl RuntimeError
      else
        (case out_channels_arg of
           None \<Rightarrow> Inl AttributeError
         | Some oc \<Rightarrow>
             init_parts F
               \<lparr> in_channels = in_channels_arg,
                 initial_features = initial_features_arg,
                 dim = dim_arg, out_channels = oc,
                 depth = depth_arg, gain = gain_arg,
                 upsample_kwargs = make_upsample_kwargs dim_arg upsample_mode \<rparr>))"

subsection \<open>The default factories and the class \<open>UNet\<close>\<close>

definition UNetBase_downsample_op_factory ::
  "'t layers \<Rightarrow> settings \<Rightarrow> int \<Rightarrow> error + 't op" where
  "UNetBase_downsample_op_factory L self index =
     (if dim self = 1 then MaxPool1d L 2 2
      else if dim self = 2 then MaxPool2d L 2 2
      else if dim self = 3 then MaxPool3d L 2 2
      else Inl AssertionError)"

definition UNetBase_upsample_op_factory ::
  "'t layers \<Rightarrow> settings \<Rightarrow> int \<Rightarrow> error + 't op" where
  "UNetBase_upsample_op_factory L self index = InfernoUpsample L (upsample_kwargs self)"

definition UNetBase_conv_op_factory ::
  "settings \<Rightarrow> int \<Rightarrow> int \<Rightarrow> string \<Rightarrow> int option \<Rightarrow> error + ('t op \<times> bool)" where
  "UNetBase_conv_op_factory self ic oc part depth_index = Inl NotImplementedError"

definition UNet_conv_op_factory ::
  "'t layers \<Rightarrow> settings \<Rightarrow> int \<Rightarrow> int \<Rightarrow> string \<Rightarrow> int option
     \<Rightarrow> error + ('t op \<times> bool)" where
  "UNet_conv_op_factory L self ic oc part depth_index =
     and_then
       (if part = ''start'' \<or> (part = ''down'' \<and> depth_index = Some 0) then
          ConvELU L (dim self) ic oc 3
        else if part = ''end'' then
          ConvELU L (dim self) ic (out_channels self) 1
        else
          and_then (ConvELU L (dim self) ic oc 3) (\<lambda>c1.
          and_then (ConvELU L (dim self) oc oc 3) (\<lambda>c2.
            Inr (Sequential c1 c2))))
       (\<lambda>conv. Inr (conv, False))"

definition UNet_class :: "'t layers \<Rightarrow> 't factories" where
  "UNet_class L =
     \<lparr> conv_op_factory = UNet_conv_op_factory L,
       downsample_op_factory = UNetBase_downsample_op_factory L,
       upsample_op_factory = UNetBase_upsample_op_factory L \<rparr>"

text \<open>
  \<open>UNet.__init__(in_channels, out_channels, dim, depth, initial_features, gain,
  final_activation)\<close>.
\<close>

definition UNet_init ::
  "'t layers \<Rightarrow> int \<Rightarrow> int option \<Rightarrow> int \<Rightarrow> int \<Rightarrow> int \<Rightarrow> int \<Rightarrow> string option
     \<Rightarrow> error + 't unet" where
  "UNet_init L in_channels_arg out_channels_arg dim_arg depth_arg initial_features_arg
       gain_arg final_activation =
     and_then
       (UNetBase_init (UNet_class L) dim_arg in_channels_arg initial_features_arg
          out_channels_arg depth_arg gain_arg None)
       (\<lambda>self. and_then (get_activation L final_activation) (\<lambda>activation. Inr self))"

section \<open>UNetBase: the forward pass\<close>

text \<open>
  The argument of \<open>forward\<close> is a tensor or a tuple of tensors; its result is a single
  tensor or a tuple of tensors.
\<close>

datatype 't forward_input = TensorInput 't | TupleInput "'t list"

datatype 't forward_output = Single 't | Tuple "'t list"

text \<open>
  Modelled from the spec: \<open>max_allowed_ds_steps\<close> of \<open>utils.math_utils\<close> is not among the
  sources. The spec describes it as a max-downsample-steps check on the largest
  power-of-two factor of each spatial extent: an extent can be halved as long as the
  result is a whole number not below one, and the answer for a shape is the least count
  over its axes (\<open>None\<close> stands for the infinity an empty shape leaves). \<open>UNetBase\<close> calls
  it with \<open>factor=2\<close> only; a factor below 2 is given no steps here.
\<close>

function max_allowed_ds_steps_impl :: "nat \<Rightarrow> nat \<Rightarrow> nat" where
  "max_allowed_ds_steps_impl n factor =
     (if 2 \<le> factor \<and> 0 < n \<and> factor dvd n
      then Suc (max_allowed_ds_steps_impl (n div factor) factor) else 0)"
  by pat_completeness auto
termination
  by (relation "measure fst") auto

declare max_allowed_ds_steps_impl.simps [simp del]

definition max_allowed_ds_steps :: "nat list \<Rightarrow> nat \<Rightarrow> nat option" where
  "max_allowed_ds_steps shape factor =
     fold (\<lambda>s min_steps.
             (case min_steps of
                None \<Rightarrow> Some (max_allowed_ds_steps_impl s factor)
              | Some m \<Rightarrow> Some (min m (max_allowed_ds_steps_impl s factor))))
          shape None"

definition check_scaling :: "'t torch \<Rightarrow> 't unet \<Rightarrow> 't \<Rightarrow> error + unit" where
  "check_scaling T self x =
     (let shape = tsize T x;
          mx = max_allowed_ds_steps (py_slice shape 2 (2 + dim (conf self))) 2
      in case mx of
           None \<Rightarrow> Inr ()
         | Some m \<Rightarrow> if int m < depth (conf self) then Inl RuntimeError else Inr ())"

definition forward_sanity_check :: "'t torch \<Rightarrow> 't unet \<Rightarrow> 't forward_input \<Rightarrow> error + unit" where
  "forward_sanity_check T self inp =
     (case inp of
        TupleInput ts \<Rightarrow> Inl RuntimeError
      | TensorInput x \<Rightarrow>
          (let shape = tsize T x in
           and_then (item shape 1) (\<lambda>c.
             if int c \<noteq> in_channels (conf self) then Inl RuntimeError
             else if int (length shape) \<noteq> dim (conf self) + 2 then Inl RuntimeError
             else check_scaling T self x)))"

text \<open>\<open>assert t.size()[1] == self.get_num_features(...)\<close>.\<close>

definition assert_channels :: "'t torch \<Rightarrow> 't \<Rightarrow> error + int \<Rightarrow> error + unit" where
  "assert_channels T t expected =
     and_then (item (tsize T t) 1) (\<lambda>c.
     and_then expected (\<lambda>n.
       if int c = n then Inr () else Inl AssertionError))"

text \<open>The loop of the downwards part, on \<open>out\<close>, \<open>down_res\<close> and \<open>side_out\<close>.\<close>

fun forward_down ::
  "'t torch \<Rightarrow> 't unet \<Rightarrow> int list \<Rightarrow> 't \<Rightarrow> 't list \<Rightarrow> 't list
     \<Rightarrow> error + ('t \<times> 't list \<times> 't list)" where
  "forward_down T self [] out down_res side_out = Inr (out, down_res, side_out)"
| "forward_down T self (d # ds) out down_res side_out =
     and_then (item (conv_down_ops self) d) (\<lambda>conv.
     and_then (conv out) (\<lambda>out1.
     and_then (assert_channels T out1 (int_num_features (conf self) ''down'' (Some d))) (\<lambda>u.
     and_then (item (downsample_ops self) d) (\<lambda>pool.
     and_then (pool out1) (\<lambda>out2.
       forward_down T self ds out2 (down_res @ [out1])
         (if od_in (KTup ''down'' d) (side_out_num_channels self)
          then side_out @ [out1] else side_out))))))"

text \<open>The loop of the upward part, on \<open>out\<close> and \<open>side_out\<close>; \<open>down_res\<close> is reversed.\<close>

fun forward_up ::
  "'t torch \<Rightarrow> 't unet \<Rightarrow> int list \<Rightarrow> 't list \<Rightarrow> 't \<Rightarrow> 't list
     \<Rightarrow> error + ('t \<times> 't list)" where
  "forward_up T self [] down_res out side_out = Inr (out, side_out)"
| "forward_up T self (d # ds) down_res out side_out =
     and_then (item (upsample_ops self) d) (\<lambda>up.
     and_then (up out) (\<lambda>out1.
     and_then (item down_res d) (\<lambda>a.
     and_then (assert_channels T a
                 (int_num_features (conf self) ''down'' (Some (inv_index (conf self) d)))) (\<lambda>u.
     and_then (cat T [a, out1] 1) (\<lambda>out2.
     and_then (item (conv_up_ops self) d) (\<lambda>conv.
     and_then (conv out2) (\<lambda>out3.
     and_then (assert_channels T out3
                 (int_num_features (conf self) ''up'' (Some (inv_index (conf self) d)))) (\<lambda>v.
       forward_up T self ds down_res out3
         (if od_in (KTup ''up'' (inv_index (conf self) d)) (side_out_num_channels self)
          then side_out @ [out3] else side_out)))))))))"

definition forward :: "'t torch \<Rightarrow> 't unet \<Rightarrow> 't forward_input \<Rightarrow> error + 't forward_output" where
  "forward T self inp =
     and_then (forward_sanity_check T self inp) (\<lambda>u.
       (case inp of
          TupleInput ts \<Rightarrow> Inl RuntimeError
        | TensorInput x \<Rightarrow>
            and_then (start_block self x) (\<lambda>out0.
            and_then (forward_down T self (range (depth (conf self))) out0 []
                        (if od_in (KStr ''start'') (side_out_num_channels self)
                         then [out0] else []))
              (\<lambda>(out1, down_res, side1).
            and_then (assert_channels T out1
                        (int_num_features (conf self) ''down'' (Some (depth (conf self) - 1))))
              (\<lambda>a1.
            and_then (conv_bottom_op self out1) (\<lambda>out2.
            and_then (assert_channels T out2 (int_num_features (conf self) ''bottom'' None))
              (\<lambda>a2.
            and_then (forward_up T self (range (depth (conf self))) (rev down_res) out2
                        (if od_in (KStr ''bottom'') (side_out_num_channels self)
                         then side1 @ [out2] else side1))
              (\<lambda>(out3, side3).
            and_then (assert_channels T out3 (int_num_features (conf self) ''up'' (Some 0)))
              (\<lambda>a3.
            and_then (end_block self out3) (\<lambda>out4.
              (let side_out = side3 @ [out4]
               in if length side_out = 1 then Inr (Single (side_out ! 0))
                  else Inr (Tuple side_out))))))))))))"

section \<open>The stages of a forward pass, one by one\<close>

text \<open>
  The order of the stages: start, the down stages in forward order, bottom, the up stages
  in forward order (their keys carry the flipped index), end.
\<close>

definition stage_order :: "settings \<Rightarrow> key list" where
  "stage_order self =
     [KStr ''start''] @ map (KTup ''down'') (range (depth self)) @ [KStr ''bottom'']
       @ map (\<lambda>i. KTup ''up'' (inv_index self i)) (range (depth self)) @ [KStr ''end'']"

text \<open>
  The output of every stage of the executor, labelled with the key of the stage and
  without any of the side-output bookkeeping: the encoder pass, the bottleneck, the
  decoder pass with its skip connections, the end block.
\<close>

fun down_outputs :: "'t unet \<Rightarrow> int list \<Rightarrow> 't \<Rightarrow> error + ('t \<times> (key \<times> 't) list)" where
  "down_outputs self [] out = Inr (out, [])"
| "down_outputs self (d # ds) out =
     and_then (item (conv_down_ops self) d) (\<lambda>conv.
     and_then (conv out) (\<lambda>y.
     and_then (item (downsample_ops self) d) (\<lambda>pool.
     and_then (pool y) (\<lambda>z.
     and_then (down_outputs self ds z) (\<lambda>(out', tr).
       Inr (out', (KTup ''down'' d, y) # tr))))))"

fun up_outputs ::
  "'t torch \<Rightarrow> 't unet \<Rightarrow> int list \<Rightarrow> 't list \<Rightarrow> 't \<Rightarrow> error + ('t \<times> (key \<times> 't) list)" where
  "up_outputs T self [] skips out = Inr (out, [])"
| "up_outputs T self (d # ds) skips out =
     and_then (item (upsample_ops self) d) (\<lambda>up.
     and_then (up out) (\<lambda>y.
     and_then (item skips d) (\<lambda>a.
     and_then (cat T [a, y] 1) (\<lambda>z.
     and_then (item (conv_up_ops self) d) (\<lambda>conv.
     and_then (conv z) (\<lambda>w.
     and_then (up_outputs T self ds skips w) (\<lambda>(out', tr).
       Inr (out', (KTup ''up'' (inv_index (conf self) d), w) # tr))))))))"

definition stage_outputs :: "'t torch \<Rightarrow> 't unet \<Rightarrow> 't \<Rightarrow> error + (key \<times> 't) list" where
  "stage_outputs T self x =
     and_then (start_block self x) (\<lambda>s.
     and_then (down_outputs self (range (depth (conf self))) s) (\<lambda>(e, downs).
     and_then (conv_bottom_op self e) (\<lambda>b.
     and_then (up_outputs T self (range (depth (conf self))) (rev (map snd downs)) b)
       (\<lambda>(u, ups).
     and_then (end_block self u) (\<lambda>y.
       Inr ([(KStr ''start'', s)] @ downs @ [(KStr ''bottom'', b)] @ ups
              @ [(KStr ''end'', y)]))))))"

text \<open>
  What is collected of the stage outputs: the output of the end block, and the output of
  every stage that is flagged.
\<close>

definition collected :: "(key \<Rightarrow> bool) \<Rightarrow> (key \<times> 't) list \<Rightarrow> 't list" where
  "collected flag outs = map snd (filter (\<lambda>kt. fst kt = KStr ''end'' \<or> flag (fst kt)) outs)"

section \<open>The Cityscapes dataset\<close>

definition SPLIT_NAME_MAPPING :: "(string \<times> string) list" where
  "SPLIT_NAME_MAPPING =
     [(''train'', ''train''), (''training'', ''train''), (''validate'', ''val''),
      (''val'', ''val''), (''validation'', ''val''), (''test'', ''test''),
      (''testing'', ''test'')]"

text \<open>
  Modelled from the spec: \<open>assert_\<close> of \<open>utils.exceptions\<close> is not among the sources. It is
  taken as its call in \<open>Cityscapes.__init__\<close> uses it, \<open>assert_(condition, message,
  exception_type)\<close>: it raises an exception of the given type when the condition is false.
\<close>

definition assert_with :: "bool \<Rightarrow> error \<Rightarrow> error + unit" where
  "assert_with condition exception_type = (if condition then Inr () else Inl exception_type)"

text \<open>\<open>os.path.join\<close> of a folder and a file name (POSIX).\<close>

definition join :: "string \<Rightarrow> string \<Rightarrow> string" where
  "join a b = (if a = [] \<or> last a = CHR ''/'' then a @ b else a @ ''/'' @ b)"

text \<open>\<open>s.split('/')\<close>, \<open>'/'.join(fs)\<close>, \<open>s.endswith(suffix)\<close> and \<open>str.replace\<close>.\<close>

fun split_slash :: "string \<Rightarrow> string list" where
  "split_slash [] = [[]]"
| "split_slash (c # cs) =
     (if c = CHR ''/'' then [] # split_slash cs
      else (case split_slash cs of [] \<Rightarrow> [[c]] | w # ws \<Rightarrow> (c # w) # ws))"

fun join_slash :: "string list \<Rightarrow> string" where
  "join_slash [] = []"
| "join_slash [w] = w"
| "join_slash (w # ws) = w @ ''/'' @ join_slash ws"

definition endswith :: "string \<Rightarrow> string \<Rightarrow> bool" where
  "endswith s suffix =
     (length suffix \<le> length s \<and> drop (length s - length suffix) s = suffix)"

function replace :: "string \<Rightarrow> string \<Rightarrow> string \<Rightarrow> string" where
  "replace s old new =
     (if old = [] \<or> s = [] then s
      else if take (length old) s = old then new @ replace (drop (length old) s) old new
      else hd s # replace (tl s) old new)"
  by pat_completeness auto
termination
  by (relation "measure (\<lambda>(s, old, new). length s)") auto

declare replace.simps [simp del]

definition get_matching_labelimage_file :: "string \<Rightarrow> string" where
  "get_matching_labelimage_file f =
     (let fs = split_slash f;
          fs1 = fs[0 := ''gtFine''];
          fs2 = fs1[length fs1 - 1 := replace (last fs1) ''leftImg8bit'' ''gtFine_labelIds'']
      in join_slash fs2)"

text \<open>
  \<open>make_dataset\<close> over the file names of the archive. Reading the archive is a parameter
  \<open>filelist\<close> (it can fail); the names of the archives that are opened are logged.
\<close>

fun make_dataset_loop ::
  "string list \<Rightarrow> string option \<Rightarrow> (string \<times> string) list
     \<Rightarrow> error + (string \<times> string) list" where
  "make_dataset_loop [] split images = Inr images"
| "make_dataset_loop (f # fl) split images =
     (let fn = split_slash f in
      if endswith (last fn) ''.png'' then
        and_then (item fn 1) (\<lambda>folder.
          if Some folder = split
          then make_dataset_loop fl split (images @ [(f, get_matching_labelimage_file f)])
          else make_dataset_loop fl split images)
      else make_dataset_loop fl split images)"

definition make_dataset ::
  "(string \<Rightarrow> error + string list) \<Rightarrow> string \<Rightarrow> string option
     \<Rightarrow> error + (string \<times> string) list" where
  "make_dataset filelist image_zip_file split =
     and_then (filelist image_zip_file) (\<lambda>fl. make_dataset_loop fl split [])"

record cityscapes =
  image_zip_file :: string
  label_zip_file :: string
  split :: "string option"
  image_paths :: "(string \<times> string) list"

text \<open>The canonical name of a split, as the documentation of \<open>split\<close> lists them.\<close>

definition canonical_split :: "string \<Rightarrow> string" where
  "canonical_split s =
     (if s \<in> set [''train'', ''training''] then ''train''
      else if s \<in> set [''validate'', ''val'', ''validation''] then ''val''
      else ''test'')"

text \<open>
  \<open>Cityscapes.__init__\<close> (the transforms are stored as they are given and left out). The
  result is paired with the list of the archives that were opened. \<open>dict.get\<close> gives
  \<open>None\<close> for a key that is absent, so \<open>self.split\<close> is an option.
\<close>

definition Cityscapes_init ::
  "(string \<Rightarrow> error + string list) \<Rightarrow> string \<Rightarrow> string
     \<Rightarrow> string list \<times> (error + cityscapes)" where
  "Cityscapes_init filelist root_folder split_arg =
     (let izf = join root_folder ''leftImg8bit_trainvaltest.zip'';
          lzf = join root_folder ''gtFine_trainvaltest.zip''
      in case assert_with (split_arg \<in> set (map fst SPLIT_NAME_MAPPING)) KeyError of
           Inl e \<Rightarrow> ([], Inl e)
         | Inr u \<Rightarrow>
             (let sp = map_of SPLIT_NAME_MAPPING split_arg
              in ([izf],
                  and_then (make_dataset filelist izf sp) (\<lambda>paths.
                    Inr \<lparr> image_zip_file = izf, label_zip_file = lzf, split = sp,
                          image_paths = paths \<rparr>))))"

section \<open>The channel plan of the assembler\<close>

text \<open>
  The arguments of the call of \<open>conv_op_factory\<close> for each stage, in closed form: every
  stage takes the channels its predecessor produces, an up stage takes in addition the
  channels of the mirrored down stage.
\<close>

definition features :: "settings \<Rightarrow> int \<Rightarrow> int" where
  "features self e = initial_features self * gain self ^ nat e"

fun stage_call :: "settings \<Rightarrow> key \<Rightarrow> (int \<times> int \<times> string \<times> int option) option" where
  "stage_call self (KStr part) =
     (if part = ''start'' then Some (in_channels self, initial_features self, part, None)
      else if part = ''bottom'' then
        Some (features self (depth self), features self (depth self + 1), part, None)
      else if part = ''end'' then Some (features self 1, out_channels self, part, None)
      else None)"
| "stage_call self (KTup part i) =
     (if part = ''down'' then Some (features self i, features self (i + 1), part, Some i)
      else if part = ''up'' then
        Some (features self (i + 2) + features self (i + 1), features self (i + 1), part, Some i)
      else None)"

text \<open>A stage is flagged when the factory, called for it, returns \<open>True\<close> with its operator.\<close>

definition flagged :: "'t factories \<Rightarrow> settings \<Rightarrow> key \<Rightarrow> bool" where
  "flagged F self k =
     (case stage_call self k of
        None \<Rightarrow> False
      | Some (ic, oc, part, di) \<Rightarrow>
          (case conv_op_factory F self ic oc part di of
             Inl e \<Rightarrow> False
           | Inr (op, return_op_res) \<Rightarrow> return_op_res))"

text \<open>A forward pass that would consist of the start block and the end block alone.\<close>

definition start_then_end :: "'t unet \<Rightarrow> 't \<Rightarrow> error + 't forward_output" where
  "start_then_end self x =
     and_then (start_block self x) (\<lambda>s.
     and_then (end_block self s) (\<lambda>y. Inr (Single y)))"

section \<open>A shape-level interpretation of the tensor library\<close>

text \<open>
  The layers (torch and the \<open>layers\<close> package) are not among the sources. To run the model
  on concrete inputs, and to state that a forward pass returns, they are interpreted here
  on tensors that consist of a shape and the list of the layers applied so far. This
  interpretation is an assumption about the layers: a convolution (with padding) sets the
  channel count and needs the right input channels and rank; pooling halves and upsampling
  doubles every spatial extent; concatenation along axis 1 adds the channel counts.
\<close>

record shaped =
  shape :: "nat list"
  applied :: "string list"

definition sh_conv :: "int \<Rightarrow> int \<Rightarrow> int \<Rightarrow> int \<Rightarrow> error + shaped op" where
  "sh_conv d ic oc k =
     Inr (\<lambda>x. if int (length (shape x)) = d + 2 \<and> int (shape x ! 1) = ic
              then Inr (x\<lparr> shape := (shape x)[1 := nat oc],
                          applied := applied x @ [''conv''] \<rparr>)
              else Inl RuntimeError)"

definition sh_pool :: "int \<Rightarrow> int \<Rightarrow> int \<Rightarrow> error + shaped op" where
  "sh_pool d k s =
     Inr (\<lambda>x. if int (length (shape x)) = d + 2 \<and> list_all (\<lambda>n. nat k \<le> n) (drop 2 (shape x))
              then Inr (x\<lparr> shape := take 2 (shape x) @ map (\<lambda>n. n div nat s) (drop 2 (shape x)),
                          applied := applied x @ [''pool''] \<rparr>)
              else Inl RuntimeError)"

definition sh_upsample :: "upsample_kwargs \<Rightarrow> error + shaped op" where
  "sh_upsample kw =
     Inr (\<lambda>x. Inr (x\<lparr> shape := take 2 (shape x)
                                 @ map (\<lambda>n. n * nat (scale_factor kw)) (drop 2 (shape x)),
                      applied := applied x @ [''upsample''] \<rparr>))"

definition sh_cat :: "shaped list \<Rightarrow> int \<Rightarrow> error + shaped" where
  "sh_cat ts axis =
     (case ts of
        [a, b] \<Rightarrow>
          if axis = 1 \<and> 2 \<le> length (shape a) \<and> length (shape a) = length (shape b)
             \<and> (shape a)[1 := 0] = (shape b)[1 := 0]
          then Inr \<lparr> shape = (shape a)[1 := shape a ! 1 + shape b ! 1],
                     applied = applied b @ [''cat''] \<rparr>
          else Inl RuntimeError
      | _ \<Rightarrow> Inl RuntimeError)"

definition sh_torch :: "shaped torch" where
  "sh_torch = \<lparr> tsize = shape, cat = sh_cat \<rparr>"

definition sh_layers :: "shaped layers" where
  "sh_layers = \<lparr> MaxPool1d = sh_pool 1, MaxPool2d = sh_pool 2, MaxPool3d = sh_pool 3,
                 InfernoUpsample = sh_upsample, ConvELU = sh_conv,
                 get_activation = (\<lambda>a. Inr ()) \<rparr>"

text \<open>
  What the operators of this interpretation do to shapes. \<open>level bs c sp k\<close> is the shape
  of a tensor with batch size \<open>bs\<close> and \<open>c\<close> channels after \<open>k\<close> halvings of the spatial
  extents \<open>sp\<close>. A model is shape correct when each of its operators maps the channels
  that the channel plan gives to its stage, its pooling operators halve and its upsampling
  operators double the spatial extents.
\<close>

definition level :: "nat \<Rightarrow> nat \<Rightarrow> nat list \<Rightarrow> nat \<Rightarrow> nat list" where
  "level bs c sp k = bs # c # map (\<lambda>s. s div 2 ^ k) sp"

definition maps_channels :: "int \<Rightarrow> int \<Rightarrow> int \<Rightarrow> shaped op \<Rightarrow> bool" where
  "maps_channels d i oc f \<longleftrightarrow>
     (\<forall>x. int (length (shape x)) = d + 2 \<and> int (shape x ! 1) = i
          \<longrightarrow> (\<exists>y. f x = Inr y \<and> shape y = (shape x)[1 := nat oc]))"

definition halves :: "int \<Rightarrow> shaped op \<Rightarrow> bool" where
  "halves d f \<longleftrightarrow>
     (\<forall>x. int (length (shape x)) = d + 2 \<and> (\<forall>n \<in> set (drop 2 (shape x)). 2 \<le> n)
          \<longrightarrow> (\<exists>y. f x = Inr y
                   \<and> shape y = take 2 (shape x) @ map (\<lambda>n. n div 2) (drop 2 (shape x))))"

definition doubles :: "shaped op \<Rightarrow> bool" where
  "doubles f \<longleftrightarrow>
     (\<forall>x. \<exists>y. f x = Inr y
             \<and> shape y = take 2 (shape x) @ map (\<lambda>n. n * 2) (drop 2 (shape x)))"

definition shape_correct :: "shaped unet \<Rightarrow> bool" where
  "shape_correct m \<longleftrightarrow>
     (let S = conf m; D = depth S in
      0 \<le> D \<and> 0 \<le> dim S \<and> 0 \<le> initial_features S \<and> 0 \<le> gain S \<and> 0 \<le> out_channels S
      \<and> maps_channels (dim S) (in_channels S) (initial_features S) (start_block m)
      \<and> length (conv_down_ops m) = nat D
      \<and> (\<forall>i. 0 \<le> i \<and> i < D \<longrightarrow>
            maps_channels (dim S) (features S i) (features S (i + 1)) (conv_down_ops m ! nat i))
      \<and> length (downsample_ops m) = nat D
      \<and> (\<forall>i. 0 \<le> i \<and> i < D \<longrightarrow> halves (dim S) (downsample_ops m ! nat i))
      \<and> maps_channels (dim S) (features S D) (features S (D + 1)) (conv_bottom_op m)
      \<and> length (upsample_ops m) = nat D
      \<and> (\<forall>i. 0 \<le> i \<and> i < D \<longrightarrow> doubles (upsample_ops m ! nat i))
      \<and> length (conv_up_ops m) = nat D
      \<and> (\<forall>i. 0 \<le> i \<and> i < D \<longrightarrow>
            maps_channels (dim S)
              (features S (inv_index S i + 2) + features S (inv_index S i + 1))
              (features S (inv_index S i + 1)) (conv_up_ops m ! nat i))
      \<and> maps_channels (dim S) (features S 1) (out_channels S) (end_block m))"

text \<open>
  A deriving class that builds its operators as \<open>UNet\<close> does and exposes the stages whose
  key is in a given list.
\<close>

definition exposing_conv_op_factory ::
  "'t layers \<Rightarrow> key list \<Rightarrow> settings \<Rightarrow> int \<Rightarrow> int \<Rightarrow> string \<Rightarrow> int option
     \<Rightarrow> error + ('t op \<times> bool)" where
  "exposing_conv_op_factory L ks self ic oc part depth_index =
     and_then (UNet_conv_op_factory L self ic oc part depth_index) (\<lambda>(conv, r).
       Inr (conv,
            (case depth_index of None \<Rightarrow> KStr part | Some i \<Rightarrow> KTup part i) \<in> set ks))"

definition exposing_class :: "'t layers \<Rightarrow> key list \<Rightarrow> 't factories" where
  "exposing_class L ks =
     \<lparr> conv_op_factory = exposing_conv_op_factory L ks,
       downsample_op_factory = UNetBase_downsample_op_factory L,
       upsample_op_factory = UNetBase_upsample_op_factory L \<rparr>"

text \<open>Settings, models and an input for the examples.\<close>

definition settings_2d :: settings where
  "settings_2d =
     \<lparr> in_channels = 3, initial_features = 8, dim = 2, out_channels = 2, depth = 3, gain = 2,
       upsample_kwargs = make_upsample_kwargs 2 None \<rparr>"

definition image_32 :: shaped where
  "image_32 = \<lparr> shape = [1, 3, 32, 32], applied = [] \<rparr>"

definition unet_2d :: "error + shaped unet" where
  "unet_2d = UNet_init sh_layers 3 (Some 2) 2 2 8 2 None"

definition unet_depth0 :: "error + shaped unet" where
  "unet_depth0 = UNet_init sh_layers 3 (Some 2) 2 0 8 2 None"

definition unet_exposing :: "error + shaped unet" where
  "unet_exposing =
     UNetBase_init (exposing_class sh_layers [KTup ''down'' 0, KStr ''bottom'', KTup ''up'' 0])
       2 3 8 (Some 2) 2 2 None"

section \<open>Properties\<close>

subsection \<open>Auxiliary facts\<close>

lemma and_then_Inr_iff:
  "and_then r f = Inr y \<longleftrightarrow> (\<exists>x. r = Inr x \<and> f x = Inr y)"
  by (cases r) (simp_all add: and_then_def)

lemma and_then_Inr [simp]: "and_then (Inr x) f = f x"
  by (simp add: and_then_def)

lemma and_then_Inl [simp]: "and_then (Inl e) f = Inl e"
  by (simp add: and_then_def)

lemma if_Inr: "(if b then Inr x else Inr y) = Inr (if b then x else y)"
  by simp

lemma range_set: "set (range n) = {0..n - 1}"
  by (simp add: range_def)

lemma int_num_features_ok:
  "-1 \<le> i \<Longrightarrow> part \<in> {''down'', ''up''} \<Longrightarrow>
     int_num_features self part (Some i) = Inr (initial_features self * gain self ^ nat (i + 1))"
  by (auto simp: int_num_features_def get_num_features_def py_pow_def py_mul_def)

lemma int_num_features_bottom:
  "0 \<le> depth self \<Longrightarrow>
     int_num_features self ''bottom'' x
       = Inr (initial_features self * gain self ^ nat (depth self + 1))"
  by (auto simp: int_num_features_def get_num_features_def py_pow_def py_mul_def)

subsection \<open>Channel counts\<close>


text \<open>
  With a gain that is not 0 a depth index below -1 gives a float, here the float that
  Python computes for \<open>8 * 2 ** -1\<close>.
\<close>

lemma get_num_features_float_example:
  "get_num_features settings_2d ''down'' (Some (- 2)) = Inr (PyFloat (FMul 8 (FPow 2 (- 1))))"
  by (simp add: get_num_features_def py_pow_def py_mul_def beyond_double_def settings_2d_def)



text \<open>
  C7: for every depth index from 0 up to the depth (not included), the channel count of the
  down stage and of the up stage of that index are the same number,
  \<open>initial_features * gain^(depth_index+1)\<close>.
\<close>

theorem down_up_channels_match:
  "0 \<le> i \<Longrightarrow> i < depth self \<Longrightarrow>
     get_num_features self ''down'' (Some i) = get_num_features self ''up'' (Some i)
     \<and> get_num_features self ''up'' (Some i)
         = Inr (PyInt (initial_features self * gain self ^ nat (i + 1)))"
  by (auto simp: get_num_features_def py_pow_def py_mul_def)

theorem down_up_channels_match_witness:
  "(0::int) \<le> 2 \<and> 2 < depth settings_2d
   \<and> get_num_features settings_2d ''down'' (Some 2) = Inr (PyInt 64)
   \<and> get_num_features settings_2d ''up'' (Some 2) = Inr (PyInt 64)"
  using down_up_channels_match [of 2 settings_2d]
  by (simp add: settings_2d_def)

text \<open>
  C8: the index flip is \<open>depth - 1 - i\<close>, and flipping twice gives the index back (for
  every integer, so for every index of a stage).
\<close>

theorem inv_index_involution:
  "inv_index self i = depth self - 1 - i \<and> inv_index self (inv_index self i) = i"
  by (simp add: inv_index_def)

subsection \<open>Construction\<close>

text \<open>
  The keys of \<open>_side_out_num_channels\<close> after the construction: the keys of the flagged
  stages in the order of the stages, then \<open>'end'\<close>. The loops over \<open>range(depth)\<close> are
  followed with the channel count that enters each stage.
\<close>

lemma keys_od_set:
  "map fst (od_set k v d) = (if k \<in> set (map fst d) then map fst d else map fst d @ [k])"
proof -
  have "map (fst \<circ> (\<lambda>kv. if fst kv = k then (k, v) else kv)) d = map fst d"
    by (intro map_cong) auto
  then show ?thesis by (simp add: od_set_def od_in_def)
qed

lemma features_eq: "initial_features self * gain self ^ nat e = features self e"
  by (simp add: features_def)

lemma flagged_down:
  "conv_op_factory F self (features self i) (features self (i + 1)) ''down'' (Some i)
     = Inr (op, fl) \<Longrightarrow> flagged F self (KTup ''down'' i) = fl"
  by (simp add: flagged_def)

lemma flagged_up:
  "conv_op_factory F self (features self (i + 2) + features self (i + 1))
     (features self (i + 1)) ''up'' (Some i) = Inr (op, fl)
   \<Longrightarrow> flagged F self (KTup ''up'' i) = fl"
  by (simp add: flagged_def)

lemma init_downstream_loop_keys:
  "init_downstream_loop F self [a..b] (features self a) ops d = Inr (ops', d') \<Longrightarrow>
   0 \<le> a \<Longrightarrow> \<forall>i \<in> set [a..b]. KTup ''down'' i \<notin> set (map fst d) \<Longrightarrow>
   map fst d' = map fst d @ filter (flagged F self) (map (KTup ''down'') [a..b])
   \<and> length ops' = length ops + length [a..b]"
proof (induction a b arbitrary: ops d rule: upto.induct)
  case (1 a b)
  show ?case
  proof (cases "a \<le> b")
    case False
    with "1.prems" show ?thesis by simp
  next
    case True
    then have ab: "[a..b] = a # [a + 1..b]" by (simp add: upto_rec1)
    have g: "int_num_features self ''down'' (Some a) = Inr (features self (a + 1))"
      using "1.prems"(2) by (simp add: int_num_features_ok features_eq)
    from "1.prems"(1) obtain op fl where
      f: "conv_op_factory F self (features self a) (features self (a + 1)) ''down'' (Some a)
            = Inr (op, fl)"
      and rest: "init_downstream_loop F self [a + 1..b] (features self (a + 1)) (ops @ [op])
            (if fl then od_set (KTup ''down'' a) (features self (a + 1)) d else d)
            = Inr (ops', d')"
      unfolding ab by (auto simp: g and_then_Inr_iff)
    let ?d1 = "if fl then od_set (KTup ''down'' a) (features self (a + 1)) d else d"
    have k1: "map fst ?d1 = map fst d @ (if fl then [KTup ''down'' a] else [])"
      using "1.prems"(3) ab by (simp add: keys_od_set)
    have fresh: "\<forall>i \<in> set [a + 1..b]. KTup ''down'' i \<notin> set (map fst ?d1)"
      using "1.prems"(3) unfolding k1 ab by auto
    from "1.IH" [OF True rest _ fresh] "1.prems"(2)
    have "map fst d' = map fst ?d1 @ filter (flagged F self) (map (KTup ''down'') [a + 1..b])
          \<and> length ops' = length (ops @ [op]) + length [a + 1..b]"
      by simp
    then show ?thesis
      unfolding k1 ab using flagged_down [OF f] by simp
  qed
qed

lemma init_upstream_loop_keys:
  "init_upstream_loop F self [a..b] (features self (inv_index self a + 2)) ops d
     = Inr (ops', d') \<Longrightarrow>
   b \<le> depth self - 1 \<Longrightarrow>
   \<forall>i \<in> set [a..b]. KTup ''up'' (inv_index self i) \<notin> set (map fst d) \<Longrightarrow>
   map fst d' = map fst d
      @ filter (flagged F self) (map (\<lambda>i. KTup ''up'' (inv_index self i)) [a..b])
   \<and> length ops' = length ops + length [a..b]"
proof (induction a b arbitrary: ops d rule: upto.induct)
  case (1 a b)
  show ?case
  proof (cases "a \<le> b")
    case False
    with "1.prems" show ?thesis by simp
  next
    case True
    let ?j = "inv_index self a"
    from True "1.prems"(2) have j0: "0 \<le> ?j" by (simp add: inv_index_def)
    have ab: "[a..b] = a # [a + 1..b]" using True by (simp add: upto_rec1)
    have g1: "int_num_features self ''down'' (Some ?j) = Inr (features self (?j + 1))"
      using j0 by (simp add: int_num_features_ok features_eq)
    have g2: "int_num_features self ''up'' (Some ?j) = Inr (features self (?j + 1))"
      using j0 by (simp add: int_num_features_ok features_eq)
    have nxt: "inv_index self (a + 1) + 2 = ?j + 1" by (simp add: inv_index_def)
    from "1.prems"(1) obtain op fl where
      f: "conv_op_factory F self (features self (?j + 2) + features self (?j + 1))
            (features self (?j + 1)) ''up'' (Some ?j) = Inr (op, fl)"
      and rest: "init_upstream_loop F self [a + 1..b] (features self (?j + 1)) (ops @ [op])
            (if fl then od_set (KTup ''up'' ?j) (features self (?j + 1)) d else d)
            = Inr (ops', d')"
      unfolding ab by (auto simp: g1 g2 and_then_Inr_iff Let_def)
    let ?d1 = "if fl then od_set (KTup ''up'' ?j) (features self (?j + 1)) d else d"
    have k1: "map fst ?d1 = map fst d @ (if fl then [KTup ''up'' ?j] else [])"
      using "1.prems"(3) ab by (simp add: keys_od_set)
    have fresh: "\<forall>i \<in> set [a + 1..b]. KTup ''up'' (inv_index self i) \<notin> set (map fst ?d1)"
      using "1.prems"(3) unfolding k1 ab by (auto simp: inv_index_def)
    from "1.IH" [OF True _ "1.prems"(2) fresh] rest
    have "map fst d' = map fst ?d1
            @ filter (flagged F self) (map (\<lambda>i. KTup ''up'' (inv_index self i)) [a + 1..b])
          \<and> length ops' = length (ops @ [op]) + length [a + 1..b]"
      unfolding nxt by simp
    then show ?thesis
      unfolding k1 ab using flagged_up [OF f] by simp
  qed
qed

lemma int_num_features_down_Inr:
  "int_num_features self ''down'' (Some i) = Inr n \<Longrightarrow> -1 \<le> i \<and> n = features self (i + 1)"
  by (auto simp: int_num_features_def get_num_features_def py_pow_def py_mul_def features_def and_then_Inr_iff split: if_splits)

lemma filter_end_or:
  "\<forall>k \<in> set ks. k \<noteq> KStr ''end'' \<Longrightarrow>
     filter (\<lambda>k. k = KStr ''end'' \<or> P k) ks = filter P ks"
  by (intro filter_cong) auto

lemma init_parts_steps:
  assumes "init_parts F self = Inr m"
  shows "\<exists>start d1 conv_down d2 bottom d3 conv_up d4 end_op d5 down_ops up_ops.
     init_start F self [] = Inr (start, d1)
     \<and> init_downstream F self d1 = Inr (conv_down, d2)
     \<and> init_bottom F self d2 = Inr (bottom, d3)
     \<and> init_upstream F self d3 = Inr (conv_up, d4)
     \<and> init_end F self d4 = Inr (end_op, d5)
     \<and> init_downsample F self = Inr down_ops
     \<and> init_upsample F self = Inr up_ops
     \<and> m = \<lparr> conf = self, side_out_num_channels = d5,
             start_block = start, conv_down_ops = conv_down,
             downsample_ops = down_ops, conv_bottom_op = bottom,
             upsample_ops = up_ops, conv_up_ops = conv_up,
             end_block = end_op,
             out_channels_side_out = map snd d5 \<rparr>"
  using assms
  by (simp add: init_parts_def and_then_Inr_iff split_paired_Ex) blast

lemma init_parts_keys:
  assumes "init_parts F self = Inr m"
  shows "conf m = self \<and> 0 \<le> depth self
     \<and> map fst (side_out_num_channels m)
         = filter (\<lambda>k. k = KStr ''end'' \<or> flagged F self k) (stage_order self)"
proof -
  from init_parts_steps [OF assms]
  obtain start d1 conv_down d2 bottom d3 conv_up d4 end_op d5 down_ops up_ops where
    s1: "init_start F self [] = Inr (start, d1)"
    and s2: "init_downstream F self d1 = Inr (conv_down, d2)"
    and s3: "init_bottom F self d2 = Inr (bottom, d3)"
    and s4: "init_upstream F self d3 = Inr (conv_up, d4)"
    and s5: "init_end F self d4 = Inr (end_op, d5)"
    and m: "conf m = self" "side_out_num_channels m = d5"
    by auto
  let ?fl = "flagged F self"
  let ?downs = "map (KTup ''down'') [0..depth self - 1]"
  let ?ups = "map (\<lambda>i. KTup ''up'' (inv_index self i)) [0..depth self - 1]"
  have k1: "map fst d1 = filter ?fl [KStr ''start'']"
    using s1 by (auto simp: init_start_def and_then_Inr_iff flagged_def keys_od_set)
  have f0: "features self 0 = initial_features self" by (simp add: features_def)
  from s2 have s2': "init_downstream_loop F self [0..depth self - 1] (features self 0) [] d1
      = Inr (conv_down, d2)"
    by (simp add: init_downstream_def range_def f0)
  have fresh1: "\<forall>i \<in> set [0..depth self - 1]. KTup ''down'' i \<notin> set (map fst d1)"
    unfolding k1 by auto
  from init_downstream_loop_keys [OF s2' _ fresh1]
  have k2: "map fst d2 = map fst d1 @ filter ?fl ?downs" by simp
  from s3 obtain ic oc op fl where
    b1: "int_num_features self ''down'' (Some (depth self - 1)) = Inr ic"
    and b2: "int_num_features self ''bottom'' None = Inr oc"
    and b3: "conv_op_factory F self ic oc ''bottom'' None = Inr (op, fl)"
    and b4: "d3 = (if fl then od_set (KStr ''bottom'') oc d2 else d2)"
    by (auto simp: init_bottom_def and_then_Inr_iff)
  from int_num_features_down_Inr [OF b1] have dp: "0 \<le> depth self"
    and ic: "ic = features self (depth self)" by auto
  from b2 dp have oc: "oc = features self (depth self + 1)"
    by (simp add: int_num_features_bottom features_eq)
  have flb: "?fl (KStr ''bottom'') = fl"
    using b3 by (simp add: flagged_def ic oc)
  have nb: "KStr ''bottom'' \<notin> set (map fst d2)"
    unfolding k2 k1 by auto
  have k3: "map fst d3 = map fst d2 @ filter ?fl [KStr ''bottom'']"
    using nb by (simp add: b4 keys_od_set flb)
  have inv0: "inv_index self 0 + 2 = depth self + 1" by (simp add: inv_index_def)
  from s4 have s4': "init_upstream_loop F self [0..depth self - 1]
      (features self (inv_index self 0 + 2)) [] d3 = Inr (conv_up, d4)"
    unfolding inv0 using dp
    by (simp add: init_upstream_def range_def int_num_features_bottom features_eq)
  have fresh3: "\<forall>i \<in> set [0..depth self - 1]. KTup ''up'' (inv_index self i) \<notin> set (map fst d3)"
    unfolding k3 k2 k1 by auto
  from init_upstream_loop_keys [OF s4' _ fresh3]
  have k4: "map fst d4 = map fst d3 @ filter ?fl ?ups" by simp
  have ne: "KStr ''end'' \<notin> set (map fst d4)"
    unfolding k4 k3 k2 k1 by auto
  from s5 have k5: "map fst d5 = map fst d4 @ [KStr ''end'']"
    using ne by (auto simp: init_end_def and_then_Inr_iff keys_od_set)
  have "filter (\<lambda>k. k = KStr ''end'' \<or> ?fl k) (stage_order self)
      = filter ?fl [KStr ''start''] @ filter ?fl ?downs @ filter ?fl [KStr ''bottom'']
          @ filter ?fl ?ups @ [KStr ''end'']"
    unfolding stage_order_def range_def filter_append
    by (simp add: filter_end_or)
  then show ?thesis
    using m dp by (simp add: k5 k4 k3 k2 k1)
qed

lemma UNetBase_init_parts:
  "UNetBase_init F dm ic nf oc dp g um = Inr m \<Longrightarrow>
   \<exists>oc'. oc = Some oc' \<and> dm \<in> {1, 2, 3}
     \<and> init_parts F \<lparr> in_channels = ic, initial_features = nf, dim = dm, out_channels = oc',
                       depth = dp, gain = g,
                       upsample_kwargs = make_upsample_kwargs dm um \<rparr> = Inr m"
  by (auto simp: UNetBase_init_def split: if_splits option.splits)

text \<open>The construction succeeds when the factories return their operators.\<close>

lemma init_downstream_loop_ok:
  assumes "\<And>ic oc part di. \<exists>r. conv_op_factory F self ic oc part di = Inr r"
    and "\<forall>i \<in> set ds. -1 \<le> i"
  shows "\<exists>r. init_downstream_loop F self ds cur ops d = Inr r"
  using assms(2)
proof (induction ds arbitrary: cur ops d)
  case Nil
  then show ?case by simp
next
  case (Cons i ds)
  obtain op fl where "conv_op_factory F self cur (initial_features self * gain self ^ nat (i + 1))
      ''down'' (Some i) = Inr (op, fl)"
    using assms(1) by (metis surj_pair)
  then show ?case using Cons by (simp add: int_num_features_ok)
qed

lemma init_upstream_loop_ok:
  assumes "\<And>ic oc part di. \<exists>r. conv_op_factory F self ic oc part di = Inr r"
    and "\<forall>i \<in> set ds. -1 \<le> inv_index self i"
  shows "\<exists>r. init_upstream_loop F self ds cur ops d = Inr r"
  using assms(2)
proof (induction ds arbitrary: cur ops d)
  case Nil
  then show ?case by simp
next
  case (Cons i ds)
  let ?n = "initial_features self * gain self ^ nat (inv_index self i + 1)"
  obtain op fl where
    "conv_op_factory F self (cur + ?n) ?n ''up'' (Some (inv_index self i)) = Inr (op, fl)"
    using assms(1) by (metis surj_pair)
  then show ?case using Cons by (simp add: int_num_features_ok Let_def)
qed

lemma comprehension_ok:
  assumes "\<And>x. \<exists>r. f x = Inr r"
  shows "\<exists>r. comprehension f xs = Inr r"
proof (induction xs)
  case Nil
  then show ?case by simp
next
  case (Cons x xs)
  then show ?case using assms [of x] by auto
qed

lemma init_parts_ok:
  assumes dp: "0 \<le> depth self"
    and conv: "\<And>a b p i. \<exists>r. conv_op_factory F self a b p i = Inr r"
    and down: "\<And>i. \<exists>r. downsample_op_factory F self i = Inr r"
    and up: "\<And>i. \<exists>r. upsample_op_factory F self i = Inr r"
  shows "\<exists>m. init_parts F self = Inr m"
proof -
  have r1: "\<forall>i \<in> set (range (depth self)). -1 \<le> i"
    by (auto simp: range_set)
  have r2: "\<forall>i \<in> set (range (depth self)). -1 \<le> inv_index self i"
    by (auto simp: range_set inv_index_def)
  obtain start d1 where s1: "init_start F self [] = Inr (start, d1)"
    using conv [of "in_channels self" "initial_features self" "''start''" None]
    by (auto simp: init_start_def)
  obtain cd d2 where s2: "init_downstream F self d1 = Inr (cd, d2)"
    using init_downstream_loop_ok [OF conv r1] by (fastforce simp: init_downstream_def)
  have gd: "int_num_features self ''down'' (Some (depth self - 1))
      = Inr (initial_features self * gain self ^ nat (depth self - 1 + 1))"
    using dp by (intro int_num_features_ok) auto
  obtain bt d3 where s3: "init_bottom F self d2 = Inr (bt, d3)"
    using conv [of "initial_features self * gain self ^ nat (depth self - 1 + 1)"
        "initial_features self * gain self ^ nat (depth self + 1)" "''bottom''" None] dp
    by (auto simp: init_bottom_def gd int_num_features_bottom)
  obtain cu d4 where s4: "init_upstream F self d3 = Inr (cu, d4)"
    using init_upstream_loop_ok [OF conv r2] dp
    by (fastforce simp: init_upstream_def int_num_features_bottom)
  obtain en d5 where s5: "init_end F self d4 = Inr (en, d5)"
    using conv [of "initial_features self * gain self ^ nat (0 + 1)" "out_channels self"
        "''end''" None]
    by (auto simp: init_end_def int_num_features_ok)
  obtain dops where s6: "init_downsample F self = Inr dops"
    using comprehension_ok [of "downsample_op_factory F self", OF down]
    by (auto simp: init_downsample_def)
  obtain uops where s7: "init_upsample F self = Inr uops"
    using comprehension_ok [of "\<lambda>i. upsample_op_factory F self (inv_index self i)", OF up]
    by (auto simp: init_upsample_def)
  show ?thesis
    using s1 s2 s3 s4 s5 s6 s7 by (simp add: init_parts_def)
qed

text \<open>
  C6: for every \<open>dim\<close> that is not 1, 2 or 3 the construction raises \<open>RuntimeError\<close>,
  whatever the factories are (none of them is called); for \<open>dim\<close> 1, 2 or 3 the check
  passes: the construction goes on to initialise the parts, and succeeds for a depth from
  0 on when the factories return their operators.
\<close>

theorem dim_check:
  assumes "S = \<lparr> in_channels = ic, initial_features = nf, dim = dm, out_channels = oc,
                 depth = dp, gain = g, upsample_kwargs = make_upsample_kwargs dm um \<rparr>"
  shows
  "(dm \<notin> {1, 2, 3} \<longrightarrow> UNetBase_init F dm ic nf oco dp g um = Inl RuntimeError)
   \<and> (dm \<in> {1, 2, 3} \<longrightarrow> UNetBase_init F dm ic nf (Some oc) dp g um = init_parts F S)
   \<and> (dm \<in> {1, 2, 3} \<and> 0 \<le> dp
       \<and> (\<forall>a b p i. \<exists>r. conv_op_factory F S a b p i = Inr r)
       \<and> (\<forall>i. \<exists>r. downsample_op_factory F S i = Inr r)
       \<and> (\<forall>i. \<exists>r. upsample_op_factory F S i = Inr r)
      \<longrightarrow> (\<exists>m. UNetBase_init F dm ic nf (Some oc) dp g um = Inr m \<and> conf m = S))"
proof (intro conjI impI)
  assume "dm \<notin> {1, 2, 3}"
  then show "UNetBase_init F dm ic nf oco dp g um = Inl RuntimeError"
    by (simp add: UNetBase_init_def)
next
  assume "dm \<in> {1, 2, 3}"
  then show "UNetBase_init F dm ic nf (Some oc) dp g um = init_parts F S"
    by (auto simp: UNetBase_init_def assms)
next
  assume a: "dm \<in> {1, 2, 3} \<and> 0 \<le> dp
       \<and> (\<forall>a b p i. \<exists>r. conv_op_factory F S a b p i = Inr r)
       \<and> (\<forall>i. \<exists>r. downsample_op_factory F S i = Inr r)
       \<and> (\<forall>i. \<exists>r. upsample_op_factory F S i = Inr r)"
  then have eq: "UNetBase_init F dm ic nf (Some oc) dp g um = init_parts F S"
    by (auto simp: UNetBase_init_def assms)
  have "0 \<le> depth S" using a by (simp add: assms)
  then obtain m where m: "init_parts F S = Inr m"
    using init_parts_ok [of S F] a by blast
  with init_parts_keys [OF m] eq
  show "\<exists>m. UNetBase_init F dm ic nf (Some oc) dp g um = Inr m \<and> conf m = S"
    by simp
qed

lemma UNet_conv_op_factory_sh_total:
  "\<exists>r. conv_op_factory (UNet_class sh_layers) S a b p i = Inr r"
  by (auto simp: UNet_class_def UNet_conv_op_factory_def sh_layers_def sh_conv_def)

theorem dim_check_witness:
  "UNetBase_init (UNet_class sh_layers) 4 3 8 (Some 2) 3 2 None = Inl RuntimeError
   \<and> UNetBase_init (UNet_class sh_layers) 2 3 8 (Some 2) 3 2 None
       = init_parts (UNet_class sh_layers) settings_2d
   \<and> (\<exists>m. UNetBase_init (UNet_class sh_layers) 2 3 8 (Some 2) 3 2 None = Inr m
          \<and> conf m = settings_2d)"
proof -
  have S: "settings_2d = \<lparr> in_channels = 3, initial_features = 8, dim = 2, out_channels = 2,
                 depth = 3, gain = 2, upsample_kwargs = make_upsample_kwargs 2 None \<rparr>"
    by (simp add: settings_2d_def)
  have S4: "settings_2d\<lparr> dim := 4, upsample_kwargs := make_upsample_kwargs 4 None \<rparr>
     = \<lparr> in_channels = 3, initial_features = 8, dim = 4, out_channels = 2,
                 depth = 3, gain = 2, upsample_kwargs = make_upsample_kwargs 4 None \<rparr>"
    by (simp add: settings_2d_def)
  have d: "\<forall>i. \<exists>r. downsample_op_factory (UNet_class sh_layers) settings_2d i = Inr r"
    by (simp add: UNet_class_def UNetBase_downsample_op_factory_def sh_layers_def sh_pool_def
        settings_2d_def)
  have u: "\<forall>i. \<exists>r. upsample_op_factory (UNet_class sh_layers) settings_2d i = Inr r"
    by (simp add: UNet_class_def UNetBase_upsample_op_factory_def sh_layers_def sh_upsample_def)
  have c: "\<forall>a b p i. \<exists>r. conv_op_factory (UNet_class sh_layers) settings_2d a b p i = Inr r"
    using UNet_conv_op_factory_sh_total by blast
  have 1: "UNetBase_init (UNet_class sh_layers) 4 3 8 (Some 2) 3 2 None = Inl RuntimeError"
    using dim_check [OF S4, of "UNet_class sh_layers" "Some 2"] by simp
  have 2: "UNetBase_init (UNet_class sh_layers) 2 3 8 (Some 2) 3 2 None
       = init_parts (UNet_class sh_layers) settings_2d"
    using dim_check [OF S, of "UNet_class sh_layers" None] by simp
  have 3: "\<exists>m. UNetBase_init (UNet_class sh_layers) 2 3 8 (Some 2) 3 2 None = Inr m
          \<and> conf m = settings_2d"
    using dim_check [OF S, of "UNet_class sh_layers" None] c d u by fastforce
  from 1 2 3 show ?thesis by blast
qed

text \<open>
  C1 (what the code does at \<open>out_channels=None\<close>): once the \<open>dim\<close> check has passed,
  the construction raises \<open>AttributeError\<close> at the lookup of \<open>get_num_channels\<close>,
  whatever the factories and the other arguments are.
\<close>

theorem out_channels_None_raises:
  "dm \<in> {1, 2, 3} \<Longrightarrow> UNetBase_init F dm ic nf None dp g um = Inl AttributeError"
  by (auto simp: UNetBase_init_def)

theorem out_channels_None_raises_witness:
  "(2::int) \<in> {1, 2, 3}
   \<and> UNetBase_init (UNet_class sh_layers) 2 1 8 None 3 2 None = Inl AttributeError
   \<and> UNet_init sh_layers 1 None 2 4 64 2 None = Inl AttributeError"
  using out_channels_None_raises [of 2 "UNet_class sh_layers" 1 8 3 2 None]
    out_channels_None_raises [of 2 "UNet_class sh_layers" 1 64 4 2 None]
  by (simp add: UNet_init_def)

subsection \<open>The forward pass\<close>

text \<open>
  The loops of \<open>forward\<close> compute the outputs of the stages one by one and append to
  \<open>side_out\<close> those whose key is in the dictionary.
\<close>

lemma forward_down_outputs:
  "forward_down T self ds out down_res side_out = Inr (out', down_res', side_out') \<Longrightarrow>
   \<exists>tr. down_outputs self ds out = Inr (out', tr)
       \<and> map fst tr = map (KTup ''down'') ds
       \<and> down_res' = down_res @ map snd tr
       \<and> side_out' = side_out
            @ map snd (filter (\<lambda>kt. od_in (fst kt) (side_out_num_channels self)) tr)"
proof (induction ds arbitrary: out down_res side_out)
  case Nil
  then show ?case by simp
next
  case (Cons d ds)
  from Cons.prems obtain conv y pool z where
    c: "item (conv_down_ops self) d = Inr conv" and y: "conv out = Inr y"
    and p: "item (downsample_ops self) d = Inr pool" and z: "pool y = Inr z"
    and rest: "forward_down T self ds z (down_res @ [y])
         (if od_in (KTup ''down'' d) (side_out_num_channels self)
          then side_out @ [y] else side_out) = Inr (out', down_res', side_out')"
    by (auto simp: and_then_Inr_iff)
  from Cons.IH [OF rest] obtain tr where
    tr: "down_outputs self ds z = Inr (out', tr)" "map fst tr = map (KTup ''down'') ds"
      "down_res' = (down_res @ [y]) @ map snd tr"
      "side_out' = (if od_in (KTup ''down'' d) (side_out_num_channels self)
          then side_out @ [y] else side_out)
            @ map snd (filter (\<lambda>kt. od_in (fst kt) (side_out_num_channels self)) tr)"
    by blast
  show ?case
    using c y p z tr by (rule_tac x = "(KTup ''down'' d, y) # tr" in exI) simp
qed

lemma forward_up_outputs:
  "forward_up T self ds skips out side_out = Inr (out', side_out') \<Longrightarrow>
   \<exists>tr. up_outputs T self ds skips out = Inr (out', tr)
       \<and> map fst tr = map (\<lambda>i. KTup ''up'' (inv_index (conf self) i)) ds
       \<and> side_out' = side_out
            @ map snd (filter (\<lambda>kt. od_in (fst kt) (side_out_num_channels self)) tr)"
proof (induction ds arbitrary: out side_out)
  case Nil
  then show ?case by simp
next
  case (Cons d ds)
  from Cons.prems obtain up y a z conv w where
    s: "item (upsample_ops self) d = Inr up" "up out = Inr y" "item skips d = Inr a"
       "cat T [a, y] 1 = Inr z" "item (conv_up_ops self) d = Inr conv" "conv z = Inr w"
    and rest: "forward_up T self ds skips w
         (if od_in (KTup ''up'' (inv_index (conf self) d)) (side_out_num_channels self)
          then side_out @ [w] else side_out) = Inr (out', side_out')"
    by (auto simp: and_then_Inr_iff)
  from Cons.IH [OF rest] obtain tr where
    tr: "up_outputs T self ds skips w = Inr (out', tr)"
      "map fst tr = map (\<lambda>i. KTup ''up'' (inv_index (conf self) i)) ds"
      "side_out' = (if od_in (KTup ''up'' (inv_index (conf self) d)) (side_out_num_channels self)
          then side_out @ [w] else side_out)
            @ map snd (filter (\<lambda>kt. od_in (fst kt) (side_out_num_channels self)) tr)"
    by blast
  show ?case
    using s tr by (rule_tac x = "(KTup ''up'' (inv_index (conf self) d), w) # tr" in exI) simp
qed

text \<open>The steps of a forward pass that returns.\<close>

lemma forward_steps:
  assumes "forward T self inp = Inr r"
  shows "\<exists>x s e down_res side1 b u side3 y.
    inp = TensorInput x
    \<and> forward_sanity_check T self inp = Inr ()
    \<and> start_block self x = Inr s
    \<and> forward_down T self (range (depth (conf self))) s []
       (if od_in (KStr ''start'') (side_out_num_channels self) then [s] else [])
       = Inr (e, down_res, side1)
    \<and> assert_channels T e (int_num_features (conf self) ''down'' (Some (depth (conf self) - 1)))
       = Inr ()
    \<and> conv_bottom_op self e = Inr b
    \<and> assert_channels T b (int_num_features (conf self) ''bottom'' None) = Inr ()
    \<and> forward_up T self (range (depth (conf self))) (rev down_res) b
       (if od_in (KStr ''bottom'') (side_out_num_channels self) then side1 @ [b] else side1)
       = Inr (u, side3)
    \<and> assert_channels T u (int_num_features (conf self) ''up'' (Some 0)) = Inr ()
    \<and> end_block self u = Inr y
    \<and> r = (if length (side3 @ [y]) = 1 then Single ((side3 @ [y]) ! 0) else Tuple (side3 @ [y]))"
proof (cases inp)
  case (TupleInput ts)
  with assms show ?thesis
    by (simp add: forward_def forward_sanity_check_def)
next
  case (TensorInput x)
  with assms show ?thesis
    by (simp add: forward_def and_then_Inr_iff Let_def if_Inr split_paired_Ex
          del: length_append split del: if_split cong: if_cong) blast
qed

lemma forward_stage_outputs:
  assumes "forward T self inp = Inr r"
  shows "\<exists>x outs. inp = TensorInput x \<and> stage_outputs T self x = Inr outs
           \<and> map fst outs = stage_order (conf self)
           \<and> r = (let c = collected (\<lambda>k. od_in k (side_out_num_channels self)) outs
                  in if length c = 1 then Single (c ! 0) else Tuple c)"
proof -
  let ?D = "side_out_num_channels self"
  let ?f = "\<lambda>kt::key \<times> 't. od_in (fst kt) ?D"
  from forward_steps [OF assms] obtain x s e down_res side1 b u side3 y where
    inp: "inp = TensorInput x"
    and s: "start_block self x = Inr s"
    and dn: "forward_down T self (range (depth (conf self))) s []
               (if od_in (KStr ''start'') ?D then [s] else []) = Inr (e, down_res, side1)"
    and b: "conv_bottom_op self e = Inr b"
    and up: "forward_up T self (range (depth (conf self))) (rev down_res) b
               (if od_in (KStr ''bottom'') ?D then side1 @ [b] else side1) = Inr (u, side3)"
    and y: "end_block self u = Inr y"
    and r: "r = (if length (side3 @ [y]) = 1 then Single ((side3 @ [y]) ! 0)
                 else Tuple (side3 @ [y]))"
    by blast
  from forward_down_outputs [OF dn] obtain downs where
    downs: "down_outputs self (range (depth (conf self))) s = Inr (e, downs)"
      "map fst downs = map (KTup ''down'') (range (depth (conf self)))"
      "down_res = map snd downs"
      "side1 = (if od_in (KStr ''start'') ?D then [s] else []) @ map snd (filter ?f downs)"
    by auto
  from forward_up_outputs [OF up] obtain ups where
    ups: "up_outputs T self (range (depth (conf self))) (rev down_res) b = Inr (u, ups)"
      "map fst ups = map (\<lambda>i. KTup ''up'' (inv_index (conf self) i)) (range (depth (conf self)))"
      "side3 = (if od_in (KStr ''bottom'') ?D then side1 @ [b] else side1)
                 @ map snd (filter ?f ups)"
    by auto
  let ?outs = "[(KStr ''start'', s)] @ downs @ [(KStr ''bottom'', b)] @ ups @ [(KStr ''end'', y)]"
  have so: "stage_outputs T self x = Inr ?outs"
    using s downs(1,3) b ups(1) y by (simp add: stage_outputs_def)
  have keys: "map fst ?outs = stage_order (conf self)"
    using downs(2) ups(2) by (simp add: stage_order_def)
  have ne_down: "fst kt \<noteq> KStr ''end''" if "kt \<in> set downs" for kt
  proof -
    from that have "fst kt \<in> set (map fst downs)" by simp
    then show ?thesis unfolding downs(2) by auto
  qed
  have ne_up: "fst kt \<noteq> KStr ''end''" if "kt \<in> set ups" for kt
  proof -
    from that have "fst kt \<in> set (map fst ups)" by simp
    then show ?thesis unfolding ups(2) by auto
  qed
  have fd: "filter (\<lambda>kt. fst kt = KStr ''end'' \<or> ?f kt) downs = filter ?f downs"
    using ne_down by (intro filter_cong) auto
  have fu: "filter (\<lambda>kt. fst kt = KStr ''end'' \<or> ?f kt) ups = filter ?f ups"
    using ne_up by (intro filter_cong) auto
  have col: "collected (\<lambda>k. od_in k ?D) ?outs = side3 @ [y]"
    unfolding collected_def filter_append map_append fd fu
    using downs(4) ups(3) by simp
  show ?thesis
    using inp so keys r col by (intro exI [of _ x] exI [of _ ?outs]) (simp add: Let_def)
qed

text \<open>For a constructed model the keys in the dictionary are the flagged stages.\<close>

lemma stage_order_snoc:
  "stage_order self = butlast (stage_order self) @ [KStr ''end'']"
  by (simp add: stage_order_def butlast_append)

lemma butlast_stage_order_no_end: "KStr ''end'' \<notin> set (butlast (stage_order self))"
  by (auto simp: stage_order_def butlast_append)

lemma length_collected:
  assumes "map fst outs = stage_order self"
  shows "length (collected P outs) = length (filter P (butlast (stage_order self))) + 1"
proof -
  have "length (collected P outs)
      = length (filter (\<lambda>k. k = KStr ''end'' \<or> P k) (map fst outs))"
    by (simp add: collected_def filter_map comp_def)
  also have "\<dots> = length (filter (\<lambda>k. k = KStr ''end'' \<or> P k)
                       (butlast (stage_order self) @ [KStr ''end'']))"
    using assms stage_order_snoc [of self] by simp
  also have "\<dots> = length (filter P (butlast (stage_order self))) + 1"
  proof -
    have "\<forall>k \<in> set (butlast (stage_order self)). k \<noteq> KStr ''end''"
      using butlast_stage_order_no_end [of self] by auto
    then show ?thesis by (simp add: filter_end_or)
  qed
  finally show ?thesis .
qed

lemma forward_flagged_outputs:
  assumes "UNetBase_init F dm ic nf oc dp g um = Inr self"
    and "forward T self inp = Inr r"
  shows "\<exists>x outs. inp = TensorInput x
           \<and> stage_outputs T self x = Inr outs
           \<and> map fst outs = stage_order (conf self)
           \<and> (let c = collected (flagged F (conf self)) outs
              in r = (if length c = 1 then Single (c ! 0) else Tuple c)
                 \<and> length c
                     = length (filter (flagged F (conf self)) (butlast (stage_order (conf self))))
                       + 1)"
proof -
  from UNetBase_init_parts [OF assms(1)] obtain s where ip: "init_parts F s = Inr self"
    by blast
  from init_parts_keys [OF ip] have conf: "conf self = s"
    and keys: "map fst (side_out_num_channels self)
         = filter (\<lambda>k. k = KStr ''end'' \<or> flagged F s k) (stage_order s)"
    by auto
  from forward_stage_outputs [OF assms(2)] obtain x outs where
    inp: "inp = TensorInput x" and so: "stage_outputs T self x = Inr outs"
    and ks: "map fst outs = stage_order (conf self)"
    and r: "r = (let c = collected (\<lambda>k. od_in k (side_out_num_channels self)) outs
                  in if length c = 1 then Single (c ! 0) else Tuple c)"
    by blast
  have "filter (\<lambda>kt. fst kt = KStr ''end'' \<or> od_in (fst kt) (side_out_num_channels self)) outs
      = filter (\<lambda>kt. fst kt = KStr ''end'' \<or> flagged F s (fst kt)) outs"
  proof (intro filter_cong refl)
    fix kt assume "kt \<in> set outs"
    then have "fst kt \<in> set (stage_order s)"
      using ks conf by (metis image_eqI list.set_map)
    then show "(fst kt = KStr ''end'' \<or> od_in (fst kt) (side_out_num_channels self))
        = (fst kt = KStr ''end'' \<or> flagged F s (fst kt))"
      by (auto simp: od_in_def keys)
  qed
  then have col: "collected (\<lambda>k. od_in k (side_out_num_channels self)) outs
      = collected (flagged F s) outs"
    by (simp add: collected_def)
  show ?thesis
    using inp so ks r length_collected [OF ks, of "flagged F s"]
    unfolding col conf by (intro exI [of _ x] exI [of _ outs]) (simp add: Let_def)
qed

text \<open>
  C4: a forward pass of a constructed model that returns has run the stages in the order
  start, down stages, bottom, up stages, end; it returns the outputs of the flagged stages
  (those for which the factory returned \<open>True\<close>) and of the end block, whatever flag the
  factory returned for the end block, in that order: as a single tensor when that is one
  output, as a tuple otherwise, and their number is the number of flagged stages plus one.
\<close>

theorem forward_returns_flagged_stages:
  assumes "UNetBase_init F dm ic nf oc dp g um = Inr self"
    and "forward T self inp = Inr r"
  shows "\<exists>x outs. inp = TensorInput x
           \<and> stage_outputs T self x = Inr outs
           \<and> map fst outs = stage_order (conf self)
           \<and> (let c = collected (flagged F (conf self)) outs
              in r = (if length c = 1 then Single (c ! 0) else Tuple c)
                 \<and> length c
                     = length (filter (flagged F (conf self)) (butlast (stage_order (conf self))))
                       + 1)"
  using assms by (rule forward_flagged_outputs)

lemma unet_exposing_Inr: "unet_exposing = Inr (projr unet_exposing)"
proof -
  have "\<not> isl unet_exposing" by code_simp
  then show ?thesis by simp
qed

lemma unet_exposing_forward:
  "forward sh_torch (projr unet_exposing) (TensorInput image_32)
     = Inr (Tuple
       [\<lparr>shape = [1, 16, 32, 32], applied = [''conv'', ''conv'']\<rparr>,
        \<lparr>shape = [1, 64, 8, 8],
           applied =
             [''conv'', ''conv'', ''pool'', ''conv'', ''conv'', ''pool'',
              ''conv'', ''conv'']\<rparr>,
        \<lparr>shape = [1, 16, 32, 32],
           applied =
             [''conv'', ''conv'', ''pool'', ''conv'', ''conv'', ''pool'',
              ''conv'', ''conv'', ''upsample'', ''cat'', ''conv'', ''conv'',
              ''upsample'', ''cat'', ''conv'', ''conv'']\<rparr>,
        \<lparr>shape = [1, 2, 32, 32],
           applied =
             [''conv'', ''conv'', ''pool'', ''conv'', ''conv'', ''pool'',
              ''conv'', ''conv'', ''upsample'', ''cat'', ''conv'', ''conv'',
              ''upsample'', ''cat'', ''conv'', ''conv'', ''conv'']\<rparr>])"
  by code_simp

lemma unet_exposing_flagged:
  "filter (flagged (exposing_class sh_layers [KTup ''down'' 0, KStr ''bottom'', KTup ''up'' 0])
             (conf (projr unet_exposing)))
     (butlast (stage_order (conf (projr unet_exposing))))
   = [KTup ''down'' 0, KStr ''bottom'', KTup ''up'' 0]"
  by code_simp


theorem forward_returns_flagged_stages_witness:
  "UNetBase_init
     (exposing_class sh_layers [KTup ''down'' 0, KStr ''bottom'', KTup ''up'' 0])
     2 3 8 (Some 2) 2 2 None = Inr (projr unet_exposing)
   \<and> forward sh_torch (projr unet_exposing) (TensorInput image_32)
     = Inr (Tuple
       [\<lparr>shape = [1, 16, 32, 32], applied = [''conv'', ''conv'']\<rparr>,
        \<lparr>shape = [1, 64, 8, 8],
           applied =
             [''conv'', ''conv'', ''pool'', ''conv'', ''conv'', ''pool'',
              ''conv'', ''conv'']\<rparr>,
        \<lparr>shape = [1, 16, 32, 32],
           applied =
             [''conv'', ''conv'', ''pool'', ''conv'', ''conv'', ''pool'',
              ''conv'', ''conv'', ''upsample'', ''cat'', ''conv'', ''conv'',
              ''upsample'', ''cat'', ''conv'', ''conv'']\<rparr>,
        \<lparr>shape = [1, 2, 32, 32],
           applied =
             [''conv'', ''conv'', ''pool'', ''conv'', ''conv'', ''pool'',
              ''conv'', ''conv'', ''upsample'', ''cat'', ''conv'', ''conv'',
              ''upsample'', ''cat'', ''conv'', ''conv'', ''conv'']\<rparr>])
   \<and> filter (flagged (exposing_class sh_layers [KTup ''down'' 0, KStr ''bottom'', KTup ''up'' 0])
               (conf (projr unet_exposing)))
        (butlast (stage_order (conf (projr unet_exposing))))
       = [KTup ''down'' 0, KStr ''bottom'', KTup ''up'' 0]
   \<and> (\<exists>outs. stage_outputs sh_torch (projr unet_exposing) image_32 = Inr outs
         \<and> map fst outs = stage_order (conf (projr unet_exposing))
         \<and> length (collected
               (flagged (exposing_class sh_layers [KTup ''down'' 0, KStr ''bottom'', KTup ''up'' 0])
                  (conf (projr unet_exposing))) outs) = 4)"
proof -
  have h1: "UNetBase_init
     (exposing_class sh_layers [KTup ''down'' 0, KStr ''bottom'', KTup ''up'' 0])
     2 3 8 (Some 2) 2 2 None = Inr (projr unet_exposing)"
    using unet_exposing_Inr by (simp add: unet_exposing_def)
  note h2 = unet_exposing_forward
  from forward_returns_flagged_stages [OF h1 h2]
  show ?thesis
    using h1 h2 unet_exposing_flagged by (auto simp: Let_def)
qed

text \<open>Depth 0: both loops are empty.\<close>

lemma range_0: "range 0 = []"
  by (simp add: range_def)

lemma depth_0_parts:
  assumes "init_parts F S = Inr m" and d0: "depth S = 0"
  shows "conf m = S \<and> conv_down_ops m = [] \<and> downsample_ops m = []
     \<and> upsample_ops m = [] \<and> conv_up_ops m = []
     \<and> (\<exists>f1. conv_op_factory F S (in_channels S) (initial_features S) ''start'' None
               = Inr (start_block m, f1))
     \<and> (\<exists>f2. conv_op_factory F S (initial_features S) (initial_features S * gain S)
               ''bottom'' None = Inr (conv_bottom_op m, f2))
     \<and> (\<exists>f3. conv_op_factory F S (initial_features S * gain S) (out_channels S)
               ''end'' None = Inr (end_block m, f3))"
proof -
  from init_parts_steps [OF assms(1)]
  obtain start d1 conv_down d2 bottom d3 conv_up d4 end_op d5 down_ops up_ops where
    s1: "init_start F S [] = Inr (start, d1)"
    and s2: "init_downstream F S d1 = Inr (conv_down, d2)"
    and s3: "init_bottom F S d2 = Inr (bottom, d3)"
    and s4: "init_upstream F S d3 = Inr (conv_up, d4)"
    and s5: "init_end F S d4 = Inr (end_op, d5)"
    and s6: "init_downsample F S = Inr down_ops"
    and s7: "init_upsample F S = Inr up_ops"
    and m: "m = \<lparr> conf = S, side_out_num_channels = d5,
             start_block = start, conv_down_ops = conv_down,
             downsample_ops = down_ops, conv_bottom_op = bottom,
             upsample_ops = up_ops, conv_up_ops = conv_up,
             end_block = end_op,
             out_channels_side_out = map snd d5 \<rparr>"
    by blast
  have g1: "int_num_features S ''down'' (Some (- 1)) = Inr (initial_features S)"
    by (simp add: int_num_features_def get_num_features_def py_pow_def py_mul_def)
  have g2: "int_num_features S ''bottom'' None = Inr (initial_features S * gain S)"
    by (simp add: int_num_features_def get_num_features_def py_pow_def py_mul_def d0)
  have g3: "int_num_features S ''up'' (Some 0) = Inr (initial_features S * gain S)"
    by (simp add: int_num_features_def get_num_features_def py_pow_def py_mul_def)
  from s1 have 1: "\<exists>f1. conv_op_factory F S (in_channels S) (initial_features S) ''start'' None
               = Inr (start, f1)"
    by (auto simp: init_start_def and_then_Inr_iff)
  from s2 have 2: "conv_down = []"
    by (simp add: init_downstream_def d0 range_0)
  from s3 have 3: "\<exists>f2. conv_op_factory F S (initial_features S) (initial_features S * gain S)
               ''bottom'' None = Inr (bottom, f2)"
    by (auto simp: init_bottom_def d0 g1 g2 and_then_Inr_iff)
  from s4 have 4: "conv_up = []"
    by (simp add: init_upstream_def d0 range_0 g2)
  from s5 have 5: "\<exists>f3. conv_op_factory F S (initial_features S * gain S) (out_channels S)
               ''end'' None = Inr (end_op, f3)"
    by (auto simp: init_end_def g3 and_then_Inr_iff)
  from s6 have 6: "down_ops = []" by (simp add: init_downsample_def d0 range_0)
  from s7 have 7: "up_ops = []" by (simp add: init_upsample_def d0 range_0)
  show ?thesis
    using 1 2 3 4 5 6 7 by (simp add: m)
qed

lemma depth_0_stage_outputs:
  assumes "depth (conf m) = 0"
  shows "stage_outputs T m x =
     and_then (start_block m x) (\<lambda>s.
     and_then (conv_bottom_op m s) (\<lambda>b.
     and_then (end_block m b) (\<lambda>y.
       Inr [(KStr ''start'', s), (KStr ''bottom'', b), (KStr ''end'', y)])))"
  by (simp add: stage_outputs_def assms range_0)

lemma depth_0_forward:
  assumes "depth (conf m) = 0"
  shows "forward T m (TensorInput x) =
     and_then (forward_sanity_check T m (TensorInput x)) (\<lambda>u.
     and_then (start_block m x) (\<lambda>s.
     and_then (assert_channels T s (Inr (initial_features (conf m)))) (\<lambda>a1.
     and_then (conv_bottom_op m s) (\<lambda>b.
     and_then (assert_channels T b (Inr (initial_features (conf m) * gain (conf m)))) (\<lambda>a2.
     and_then (end_block m b) (\<lambda>y.
       (let c = collected (\<lambda>k. od_in k (side_out_num_channels m))
                  [(KStr ''start'', s), (KStr ''bottom'', b), (KStr ''end'', y)]
        in Inr (if length c = 1 then Single (c ! 0) else Tuple c))))))))"
proof -
  have g1: "int_num_features (conf m) ''down'' (Some (- 1)) = Inr (initial_features (conf m))"
    by (simp add: int_num_features_def get_num_features_def py_pow_def py_mul_def)
  have g2: "int_num_features (conf m) ''bottom'' None
      = Inr (initial_features (conf m) * gain (conf m))"
    by (simp add: int_num_features_def get_num_features_def py_pow_def py_mul_def assms)
  have g3: "int_num_features (conf m) ''up'' (Some 0)
      = Inr (initial_features (conf m) * gain (conf m))"
    by (simp add: int_num_features_def get_num_features_def py_pow_def py_mul_def)
  have twice: "and_then (assert_channels T b n) (\<lambda>a2. and_then (assert_channels T b n) f)
      = and_then (assert_channels T b n) f" for b n and f :: "unit \<Rightarrow> error + 'c"
    by (cases "assert_channels T b n") simp_all
  show ?thesis
    by (cases "od_in (KStr ''start'') (side_out_num_channels m)";
        cases "od_in (KStr ''bottom'') (side_out_num_channels m)")
      (simp_all add: forward_def assms range_0 g1 g2 g3 collected_def twice)
qed


lemma stage_order_depth_0:
  "depth S = 0 \<Longrightarrow> stage_order S = [KStr ''start'', KStr ''bottom'', KStr ''end'']"
  by (simp add: stage_order_def range_0)

lemma depth_0_init_parts_ok:
  assumes d0: "depth S = 0"
    and c1: "\<exists>r. conv_op_factory F S (in_channels S) (initial_features S) ''start'' None = Inr r"
    and c2: "\<exists>r. conv_op_factory F S (initial_features S) (initial_features S * gain S)
                    ''bottom'' None = Inr r"
    and c3: "\<exists>r. conv_op_factory F S (initial_features S * gain S) (out_channels S)
                    ''end'' None = Inr r"
  shows "\<exists>m. init_parts F S = Inr m"
proof -
  have g1: "int_num_features S ''down'' (Some (- 1)) = Inr (initial_features S)"
    by (simp add: int_num_features_def get_num_features_def py_pow_def py_mul_def)
  have g2: "int_num_features S ''bottom'' None = Inr (initial_features S * gain S)"
    by (simp add: int_num_features_def get_num_features_def py_pow_def py_mul_def d0)
  have g3: "int_num_features S ''up'' (Some 0) = Inr (initial_features S * gain S)"
    by (simp add: int_num_features_def get_num_features_def py_pow_def py_mul_def)
  obtain start d1 where s1: "init_start F S [] = Inr (start, d1)"
    using c1 by (auto simp: init_start_def)
  have s2: "init_downstream F S d1 = Inr ([], d1)"
    by (simp add: init_downstream_def d0 range_0)
  obtain bt d3 where s3: "init_bottom F S d1 = Inr (bt, d3)"
    using c2 by (auto simp: init_bottom_def d0 g1 g2)
  have s4: "init_upstream F S d3 = Inr ([], d3)"
    by (simp add: init_upstream_def d0 range_0 g2)
  obtain en d5 where s5: "init_end F S d3 = Inr (en, d5)"
    using c3 by (auto simp: init_end_def g3)
  have s6: "init_downsample F S = Inr []" by (simp add: init_downsample_def d0 range_0)
  have s7: "init_upsample F S = Inr []" by (simp add: init_upsample_def d0 range_0)
  show ?thesis
    using s1 s2 s3 s4 s5 s6 s7 by (simp add: init_parts_def)
qed

text \<open>
  C5 (amended): constructing a model with depth 0 and explicit \<open>out_channels\<close> succeeds
  when the factory returns operators for the start block, the bottleneck and the end
  block; the model has no down or up stages and no sampling operators, and its forward
  pass is start, bottleneck, end: the start block takes \<open>in_channels\<close> to
  \<open>initial_features\<close>, the bottleneck takes these to \<open>initial_features * gain\<close>, the end
  block takes these to \<open>out_channels\<close>, and the two assertions on the way check exactly
  these channel counts.
\<close>

theorem depth_0_start_bottom_end:
  assumes S: "S = \<lparr> in_channels = ic, initial_features = nf, dim = dm, out_channels = oc,
                    depth = 0, gain = g, upsample_kwargs = make_upsample_kwargs dm um \<rparr>"
    and dm: "dm \<in> {1, 2, 3}"
    and c1: "\<exists>r. conv_op_factory F S ic nf ''start'' None = Inr r"
    and c2: "\<exists>r. conv_op_factory F S nf (nf * g) ''bottom'' None = Inr r"
    and c3: "\<exists>r. conv_op_factory F S (nf * g) oc ''end'' None = Inr r"
  shows "\<exists>m. UNetBase_init F dm ic nf (Some oc) 0 g um = Inr m \<and> conf m = S
     \<and> conv_down_ops m = [] \<and> downsample_ops m = []
     \<and> upsample_ops m = [] \<and> conv_up_ops m = []
     \<and> stage_order S = [KStr ''start'', KStr ''bottom'', KStr ''end'']
     \<and> (\<exists>f1. conv_op_factory F S ic nf ''start'' None = Inr (start_block m, f1))
     \<and> (\<exists>f2. conv_op_factory F S nf (nf * g) ''bottom'' None = Inr (conv_bottom_op m, f2))
     \<and> (\<exists>f3. conv_op_factory F S (nf * g) oc ''end'' None = Inr (end_block m, f3))
     \<and> (\<forall>T x. forward T m (TensorInput x) =
           and_then (forward_sanity_check T m (TensorInput x)) (\<lambda>u.
           and_then (start_block m x) (\<lambda>s.
           and_then (assert_channels T s (Inr nf)) (\<lambda>a1.
           and_then (conv_bottom_op m s) (\<lambda>b.
           and_then (assert_channels T b (Inr (nf * g))) (\<lambda>a2.
           and_then (end_block m b) (\<lambda>y.
             (let c = collected (flagged F S)
                        [(KStr ''start'', s), (KStr ''bottom'', b), (KStr ''end'', y)]
              in Inr (if length c = 1 then Single (c ! 0) else Tuple c)))))))))"
proof -
  have d0: "depth S = 0" and f: "in_channels S = ic" "initial_features S = nf"
    "gain S = g" "out_channels S = oc"
    by (simp_all add: S)
  have eq: "UNetBase_init F dm ic nf (Some oc) 0 g um = init_parts F S"
    using dm by (auto simp: UNetBase_init_def S)
  obtain m where m: "init_parts F S = Inr m"
    using depth_0_init_parts_ok [of S F] d0 c1 c2 c3 unfolding f by blast
  note parts = depth_0_parts [OF m d0, unfolded f]
  then have cm: "conf m = S" by simp
  have so: "stage_order S = [KStr ''start'', KStr ''bottom'', KStr ''end'']"
    using d0 by (rule stage_order_depth_0)
  from init_parts_keys [OF m]
  have keys: "map fst (side_out_num_channels m)
      = filter (\<lambda>k. k = KStr ''end'' \<or> flagged F S k)
          [KStr ''start'', KStr ''bottom'', KStr ''end'']"
    unfolding so by simp
  have in_iff: "od_in k (side_out_num_channels m) \<longleftrightarrow> k = KStr ''end'' \<or> flagged F S k"
    if "k \<in> {KStr ''start'', KStr ''bottom'', KStr ''end''}" for k
    using that unfolding od_in_def keys by auto
  have col: "collected (\<lambda>k. od_in k (side_out_num_channels m))
               [(KStr ''start'', s), (KStr ''bottom'', b), (KStr ''end'', y)]
      = collected (flagged F S) [(KStr ''start'', s), (KStr ''bottom'', b), (KStr ''end'', y)]"
    for s b y :: 'a
    unfolding collected_def
    by (intro arg_cong [where f = "map snd"] filter_cong refl) (auto simp: in_iff)
  have fw: "forward T m (TensorInput x) =
           and_then (forward_sanity_check T m (TensorInput x)) (\<lambda>u.
           and_then (start_block m x) (\<lambda>s.
           and_then (assert_channels T s (Inr nf)) (\<lambda>a1.
           and_then (conv_bottom_op m s) (\<lambda>b.
           and_then (assert_channels T b (Inr (nf * g))) (\<lambda>a2.
           and_then (end_block m b) (\<lambda>y.
             (let c = collected (flagged F S)
                        [(KStr ''start'', s), (KStr ''bottom'', b), (KStr ''end'', y)]
              in Inr (if length c = 1 then Single (c ! 0) else Tuple c))))))))" for T x
    using depth_0_forward [of m T x] d0 unfolding cm f col by simp
  show ?thesis
    using parts so fw unfolding eq m by (intro exI [of _ m]) simp
qed

lemma unet_depth0_Inr: "unet_depth0 = Inr (projr unet_depth0)"
proof -
  have "\<not> isl unet_depth0" by code_simp
  then show ?thesis by simp
qed

theorem depth_0_start_bottom_end_witness:
  "\<exists>m. UNetBase_init (UNet_class sh_layers) 2 3 8 (Some 2) 0 2 None = Inr m
     \<and> conv_down_ops m = [] \<and> downsample_ops m = [] \<and> upsample_ops m = []
     \<and> conv_up_ops m = []
     \<and> stage_order (conf m) = [KStr ''start'', KStr ''bottom'', KStr ''end'']
     \<and> forward sh_torch m (TensorInput image_32)
         = Inr (Single \<lparr>shape = [1, 2, 32, 32],
                         applied = [''conv'', ''conv'', ''conv'', ''conv'']\<rparr>)"
proof -
  define S where "S = \<lparr> in_channels = 3, initial_features = 8, dim = 2, out_channels = 2,
                    depth = 0, gain = 2, upsample_kwargs = make_upsample_kwargs 2 None \<rparr>"
  have c: "\<exists>r. conv_op_factory (UNet_class sh_layers) S a b p i = Inr r" for a b p i
    by (rule UNet_conv_op_factory_sh_total)
  from depth_0_start_bottom_end [OF S_def, of "UNet_class sh_layers"] c
  obtain m where m: "UNetBase_init (UNet_class sh_layers) 2 3 8 (Some 2) 0 2 None = Inr m"
    and r: "conf m = S" "conv_down_ops m = []" "downsample_ops m = []" "upsample_ops m = []"
      "conv_up_ops m = []"
      "stage_order S = [KStr ''start'', KStr ''bottom'', KStr ''end'']"
    by auto
  have "UNet_init sh_layers 3 (Some 2) 2 0 8 2 None = Inr m"
    using m by (simp add: UNet_init_def sh_layers_def)
  then have "m = projr unet_depth0" by (simp add: unet_depth0_def)
  moreover have "forward sh_torch (projr unet_depth0) (TensorInput image_32)
       = Inr (Single \<lparr>shape = [1, 2, 32, 32],
                       applied = [''conv'', ''conv'', ''conv'', ''conv'']\<rparr>)"
    by code_simp
  ultimately show ?thesis using m r by auto
qed

text \<open>
  C5 (as stated) fails: at depth 0 the forward pass of a \<open>UNet\<close> applies four
  convolutions (start, the two of the bottleneck, end) and returns, while the start block
  followed by the end block alone raises, since the end block expects the channels of the
  bottleneck.
\<close>

theorem depth_0_not_start_then_end:
  "UNet_init sh_layers 3 (Some 2) 2 0 8 2 None = Inr (projr unet_depth0)
   \<and> forward sh_torch (projr unet_depth0) (TensorInput image_32)
       = Inr (Single \<lparr>shape = [1, 2, 32, 32],
                       applied = [''conv'', ''conv'', ''conv'', ''conv'']\<rparr>)
   \<and> start_then_end (projr unet_depth0) image_32 = Inl RuntimeError
   \<and> forward sh_torch (projr unet_depth0) (TensorInput image_32)
       \<noteq> start_then_end (projr unet_depth0) image_32"
proof -
  have 1: "UNet_init sh_layers 3 (Some 2) 2 0 8 2 None = Inr (projr unet_depth0)"
    using unet_depth0_Inr by (simp add: unet_depth0_def)
  have 2: "forward sh_torch (projr unet_depth0) (TensorInput image_32)
       = Inr (Single \<lparr>shape = [1, 2, 32, 32],
                       applied = [''conv'', ''conv'', ''conv'', ''conv'']\<rparr>)"
    by code_simp
  have 3: "start_then_end (projr unet_depth0) image_32 = Inl RuntimeError"
    by code_simp
  from 1 2 3 show ?thesis by simp
qed

text \<open>
  The checks of the sanity check on tensors of rank 2 or more: a tuple, a wrong channel
  count, a wrong rank and a spatial extent that is not a multiple of \<open>2^depth\<close> all
  raise \<open>RuntimeError\<close>, and the forward pass raises what the sanity check raises.
\<close>

lemma ds_steps_less:
  "\<not> 2 ^ k dvd n \<Longrightarrow> max_allowed_ds_steps_impl n 2 < k"
proof (induction n "2::nat" arbitrary: k rule: max_allowed_ds_steps_impl.induct)
  case (1 n)
  from "1.prems" have k: "0 < k" by (cases k) auto
  then obtain k' where k': "k = Suc k'" by (cases k) auto
  show ?case
  proof (cases "0 < n \<and> 2 dvd n")
    case False
    then show ?thesis using k by (auto simp: max_allowed_ds_steps_impl.simps [of n])
  next
    case True
    then obtain m where m: "n = 2 * m" by (auto elim: dvdE)
    with "1.prems" k' have "\<not> 2 ^ k' dvd n div 2" by simp
    with "1.hyps" [of k'] True have "max_allowed_ds_steps_impl (n div 2) 2 < k'" by simp
    then show ?thesis using True k' by (simp add: max_allowed_ds_steps_impl.simps [of n])
  qed
qed

lemma fold_min_steps:
  "fold (\<lambda>s min_steps.
           (case min_steps of
              None \<Rightarrow> Some (max_allowed_ds_steps_impl s f)
            | Some m \<Rightarrow> Some (min m (max_allowed_ds_steps_impl s f)))) shp acc = r \<Longrightarrow>
   (s \<in> set shp \<longrightarrow> (\<exists>m. r = Some m \<and> m \<le> max_allowed_ds_steps_impl s f))
   \<and> (\<forall>a. acc = Some a \<longrightarrow> (\<exists>m. r = Some m \<and> m \<le> a))"
proof (induction shp arbitrary: acc)
  case Nil
  then show ?case by simp
next
  case (Cons t shp)
  let ?acc = "case acc of None \<Rightarrow> Some (max_allowed_ds_steps_impl t f)
              | Some m \<Rightarrow> Some (min m (max_allowed_ds_steps_impl t f))"
  from Cons.prems have "fold (\<lambda>s min_steps.
           (case min_steps of
              None \<Rightarrow> Some (max_allowed_ds_steps_impl s f)
            | Some m \<Rightarrow> Some (min m (max_allowed_ds_steps_impl s f)))) shp ?acc = r"
    by simp
  from Cons.IH [OF this] show ?case
    by (cases acc) (auto simp: min_le_iff_disj)
qed

lemma max_allowed_ds_steps_le:
  "s \<in> set shp \<Longrightarrow>
     \<exists>m. max_allowed_ds_steps shp f = Some m \<and> m \<le> max_allowed_ds_steps_impl s f"
  using fold_min_steps [OF refl, of s shp f None] by (simp add: max_allowed_ds_steps_def)

lemma py_slice_spatial:
  "2 \<le> length shp \<Longrightarrow> int (length shp) = 2 + d \<Longrightarrow> py_slice shp 2 (2 + d) = drop 2 shp"
  by (auto simp: py_slice_def slice_bound_def Let_def)

lemma forward_sanity_check_raises:
  shows "forward_sanity_check T self (TupleInput ts) = Inl RuntimeError"
    and "2 \<le> length (tsize T x) \<Longrightarrow> int (tsize T x ! 1) \<noteq> in_channels (conf self) \<Longrightarrow>
           forward_sanity_check T self (TensorInput x) = Inl RuntimeError"
    and "2 \<le> length (tsize T x) \<Longrightarrow> int (length (tsize T x)) \<noteq> dim (conf self) + 2 \<Longrightarrow>
           forward_sanity_check T self (TensorInput x) = Inl RuntimeError"
    and "2 \<le> length (tsize T x) \<Longrightarrow> s \<in> set (drop 2 (tsize T x)) \<Longrightarrow>
           \<not> 2 ^ nat (depth (conf self)) dvd s \<Longrightarrow>
           forward_sanity_check T self (TensorInput x) = Inl RuntimeError"
proof -
  show "forward_sanity_check T self (TupleInput ts) = Inl RuntimeError"
    by (simp add: forward_sanity_check_def)
  show "2 \<le> length (tsize T x) \<Longrightarrow> int (tsize T x ! 1) \<noteq> in_channels (conf self) \<Longrightarrow>
           forward_sanity_check T self (TensorInput x) = Inl RuntimeError"
    by (simp add: forward_sanity_check_def item_def Let_def)
  show "2 \<le> length (tsize T x) \<Longrightarrow> int (length (tsize T x)) \<noteq> dim (conf self) + 2 \<Longrightarrow>
           forward_sanity_check T self (TensorInput x) = Inl RuntimeError"
    by (simp add: forward_sanity_check_def item_def Let_def)
  show "forward_sanity_check T self (TensorInput x) = Inl RuntimeError"
    if r: "2 \<le> length (tsize T x)" and s: "s \<in> set (drop 2 (tsize T x))"
      and nd: "\<not> 2 ^ nat (depth (conf self)) dvd s"
  proof (cases "int (tsize T x ! 1) \<noteq> in_channels (conf self)
      \<or> int (length (tsize T x)) \<noteq> dim (conf self) + 2")
    case True
    then show ?thesis using r by (auto simp: forward_sanity_check_def item_def Let_def)
  next
    case False
    then have len: "int (length (tsize T x)) = 2 + dim (conf self)" by simp
    from max_allowed_ds_steps_le [OF s, of 2] obtain m where
      m: "max_allowed_ds_steps (drop 2 (tsize T x)) 2 = Some m"
        "m \<le> max_allowed_ds_steps_impl s 2"
      by blast
    from ds_steps_less [OF nd] m(2) have "int m < depth (conf self)" by linarith
    then have "check_scaling T self x = Inl RuntimeError"
      by (simp add: check_scaling_def py_slice_spatial [OF r len] m(1))
    then show ?thesis using False r by (simp add: forward_sanity_check_def item_def Let_def)
  qed
qed

lemma forward_raises_with_sanity_check:
  "forward_sanity_check T self inp = Inl e \<Longrightarrow> forward T self inp = Inl e"
  by (simp add: forward_def)

lemma forward_10_by_10_raises:
  "forward sh_torch (projr (UNet_init sh_layers 3 (Some 2) 2 3 8 2 None))
     (TensorInput \<lparr>shape = [1, 3, 10, 10], applied = []\<rparr>) = Inl RuntimeError"
  by code_simp

text \<open>
  C2 (what the code does on a tensor of rank 0 or 1): the channel check reads
  \<open>shape[1]\<close> before the rank is checked, so the forward pass raises \<open>IndexError\<close>, not
  the \<open>RuntimeError\<close> of the rank check.
\<close>

theorem forward_rank_below_2:
  "length (tsize T x) < 2 \<Longrightarrow> forward T self (TensorInput x) = Inl IndexError"
  by (simp add: forward_def forward_sanity_check_def item_def)

theorem forward_rank_below_2_witness:
  "length (tsize sh_torch \<lparr>shape = [5], applied = []\<rparr>) < 2
   \<and> forward sh_torch (projr unet_2d) (TensorInput \<lparr>shape = [5], applied = []\<rparr>)
       = Inl IndexError"
  using forward_rank_below_2 [of sh_torch "\<lparr>shape = [5], applied = []\<rparr>" "projr unet_2d"]
  by (simp add: sh_torch_def)

subsection \<open>The operators of a constructed model\<close>

text \<open>
  Every operator of a constructed model is what the factory returned for its stage, called
  with the channel counts of the channel plan.
\<close>

lemma upto_nth: "a \<le> i \<Longrightarrow> i \<le> b \<Longrightarrow> [a..b] ! nat (i - a) = i"
  by (simp add: nth_upto)

lemma init_downstream_loop_ops:
  "init_downstream_loop F self [a..b] (features self a) ops d = Inr (ops', d') \<Longrightarrow>
   0 \<le> a \<Longrightarrow>
   \<exists>new. ops' = ops @ new \<and> length new = length [a..b]
     \<and> (\<forall>i. a \<le> i \<and> i \<le> b \<longrightarrow>
           (\<exists>fl. conv_op_factory F self (features self i) (features self (i + 1))
                    ''down'' (Some i) = Inr (new ! nat (i - a), fl)))"
proof (induction a b arbitrary: ops d rule: upto.induct)
  case (1 a b)
  show ?case
  proof (cases "a \<le> b")
    case False
    with "1.prems" show ?thesis by auto
  next
    case True
    then have ab: "[a..b] = a # [a + 1..b]" by (simp add: upto_rec1)
    have g: "int_num_features self ''down'' (Some a) = Inr (features self (a + 1))"
      using "1.prems"(2) by (simp add: int_num_features_ok features_eq)
    from "1.prems"(1) obtain op fl where
      f: "conv_op_factory F self (features self a) (features self (a + 1)) ''down'' (Some a)
            = Inr (op, fl)"
      and rest: "init_downstream_loop F self [a + 1..b] (features self (a + 1)) (ops @ [op])
            (if fl then od_set (KTup ''down'' a) (features self (a + 1)) d else d)
            = Inr (ops', d')"
      unfolding ab by (auto simp: g and_then_Inr_iff)
    from "1.IH" [OF True rest] "1.prems"(2) obtain new where
      new: "ops' = (ops @ [op]) @ new" "length new = length [a + 1..b]"
        "\<forall>i. a + 1 \<le> i \<and> i \<le> b \<longrightarrow>
           (\<exists>fl. conv_op_factory F self (features self i) (features self (i + 1))
                    ''down'' (Some i) = Inr (new ! nat (i - (a + 1)), fl))"
      by auto
    have "\<exists>fl. conv_op_factory F self (features self i) (features self (i + 1))
                    ''down'' (Some i) = Inr ((op # new) ! nat (i - a), fl)"
      if "a \<le> i" "i \<le> b" for i
    proof (cases "i = a")
      case True
      then show ?thesis using f by auto
    next
      case False
      with that have i: "a + 1 \<le> i" by simp
      then have "nat (i - a) = Suc (nat (i - (a + 1)))" by simp
      then show ?thesis using new(3) i that(2) by simp
    qed
    then show ?thesis
      using new(1,2) unfolding ab by (intro exI [of _ "op # new"]) simp
  qed
qed

lemma init_upstream_loop_ops:
  "init_upstream_loop F self [a..b] (features self (inv_index self a + 2)) ops d
     = Inr (ops', d') \<Longrightarrow>
   b \<le> depth self - 1 \<Longrightarrow>
   \<exists>new. ops' = ops @ new \<and> length new = length [a..b]
     \<and> (\<forall>i. a \<le> i \<and> i \<le> b \<longrightarrow>
           (\<exists>fl. conv_op_factory F self
                    (features self (inv_index self i + 2) + features self (inv_index self i + 1))
                    (features self (inv_index self i + 1))
                    ''up'' (Some (inv_index self i)) = Inr (new ! nat (i - a), fl)))"
proof (induction a b arbitrary: ops d rule: upto.induct)
  case (1 a b)
  show ?case
  proof (cases "a \<le> b")
    case False
    with "1.prems" show ?thesis by auto
  next
    case True
    let ?j = "inv_index self a"
    from True "1.prems"(2) have j0: "0 \<le> ?j" by (simp add: inv_index_def)
    have ab: "[a..b] = a # [a + 1..b]" using True by (simp add: upto_rec1)
    have g1: "int_num_features self ''down'' (Some ?j) = Inr (features self (?j + 1))"
      using j0 by (simp add: int_num_features_ok features_eq)
    have g2: "int_num_features self ''up'' (Some ?j) = Inr (features self (?j + 1))"
      using j0 by (simp add: int_num_features_ok features_eq)
    have nxt: "inv_index self (a + 1) + 2 = ?j + 1" by (simp add: inv_index_def)
    from "1.prems"(1) obtain op fl where
      f: "conv_op_factory F self (features self (?j + 2) + features self (?j + 1))
            (features self (?j + 1)) ''up'' (Some ?j) = Inr (op, fl)"
      and rest: "init_upstream_loop F self [a + 1..b] (features self (?j + 1)) (ops @ [op])
            (if fl then od_set (KTup ''up'' ?j) (features self (?j + 1)) d else d)
            = Inr (ops', d')"
      unfolding ab by (auto simp: g1 g2 and_then_Inr_iff Let_def)
    from "1.IH" [OF True _ "1.prems"(2)] rest obtain new where
      new: "ops' = (ops @ [op]) @ new" "length new = length [a + 1..b]"
        "\<forall>i. a + 1 \<le> i \<and> i \<le> b \<longrightarrow>
           (\<exists>fl. conv_op_factory F self
                    (features self (inv_index self i + 2) + features self (inv_index self i + 1))
                    (features self (inv_index self i + 1))
                    ''up'' (Some (inv_index self i)) = Inr (new ! nat (i - (a + 1)), fl))"
      unfolding nxt by blast
    have "\<exists>fl. conv_op_factory F self
                    (features self (inv_index self i + 2) + features self (inv_index self i + 1))
                    (features self (inv_index self i + 1))
                    ''up'' (Some (inv_index self i)) = Inr ((op # new) ! nat (i - a), fl)"
      if "a \<le> i" "i \<le> b" for i
    proof (cases "i = a")
      case True
      then show ?thesis using f by auto
    next
      case False
      with that have i: "a + 1 \<le> i" by simp
      then have "nat (i - a) = Suc (nat (i - (a + 1)))" by simp
      then show ?thesis using new(3) i that(2) by simp
    qed
    then show ?thesis
      using new(1,2) unfolding ab by (intro exI [of _ "op # new"]) simp
  qed
qed

lemma comprehension_nth:
  "comprehension f xs = Inr ys \<Longrightarrow>
     length ys = length xs \<and> (\<forall>k < length xs. f (xs ! k) = Inr (ys ! k))"
proof (induction xs arbitrary: ys)
  case Nil
  then show ?case by simp
next
  case (Cons x xs)
  from Cons.prems obtain y ys' where y: "f x = Inr y" and r: "comprehension f xs = Inr ys'"
    and ys: "ys = y # ys'"
    by (auto simp: and_then_Inr_iff)
  from Cons.IH [OF r] show ?case
    using y ys by (auto simp: nth_Cons split: nat.splits)
qed

lemma init_parts_ops:
  assumes "init_parts F S = Inr m"
  shows "\<exists>fl. conv_op_factory F S (in_channels S) (initial_features S) ''start'' None
              = Inr (start_block m, fl)"
    and "length (conv_down_ops m) = nat (depth S)"
    and "0 \<le> i \<Longrightarrow> i < depth S \<Longrightarrow>
           \<exists>fl. conv_op_factory F S (features S i) (features S (i + 1)) ''down'' (Some i)
                  = Inr (conv_down_ops m ! nat i, fl)"
    and "\<exists>fl. conv_op_factory F S (features S (depth S)) (features S (depth S + 1))
                ''bottom'' None = Inr (conv_bottom_op m, fl)"
    and "length (conv_up_ops m) = nat (depth S)"
    and "0 \<le> i \<Longrightarrow> i < depth S \<Longrightarrow>
           \<exists>fl. conv_op_factory F S
                  (features S (inv_index S i + 2) + features S (inv_index S i + 1))
                  (features S (inv_index S i + 1)) ''up'' (Some (inv_index S i))
                  = Inr (conv_up_ops m ! nat i, fl)"
    and "\<exists>fl. conv_op_factory F S (features S 1) (out_channels S) ''end'' None
              = Inr (end_block m, fl)"
    and "length (downsample_ops m) = nat (depth S)"
    and "0 \<le> i \<Longrightarrow> i < depth S \<Longrightarrow>
           downsample_op_factory F S i = Inr (downsample_ops m ! nat i)"
    and "length (upsample_ops m) = nat (depth S)"
    and "0 \<le> i \<Longrightarrow> i < depth S \<Longrightarrow>
           upsample_op_factory F S (inv_index S i) = Inr (upsample_ops m ! nat i)"
proof -
  from init_parts_steps [OF assms]
  obtain start d1 conv_down d2 bottom d3 conv_up d4 end_op d5 down_ops up_ops where
    s1: "init_start F S [] = Inr (start, d1)"
    and s2: "init_downstream F S d1 = Inr (conv_down, d2)"
    and s3: "init_bottom F S d2 = Inr (bottom, d3)"
    and s4: "init_upstream F S d3 = Inr (conv_up, d4)"
    and s5: "init_end F S d4 = Inr (end_op, d5)"
    and s6: "init_downsample F S = Inr down_ops"
    and s7: "init_upsample F S = Inr up_ops"
    and m: "m = \<lparr> conf = S, side_out_num_channels = d5,
             start_block = start, conv_down_ops = conv_down,
             downsample_ops = down_ops, conv_bottom_op = bottom,
             upsample_ops = up_ops, conv_up_ops = conv_up,
             end_block = end_op,
             out_channels_side_out = map snd d5 \<rparr>"
    by blast
  from init_parts_keys [OF assms] have dp: "0 \<le> depth S" by simp
  have len: "length [0..depth S - 1] = nat (depth S)" using dp by simp
  show "\<exists>fl. conv_op_factory F S (in_channels S) (initial_features S) ''start'' None
              = Inr (start_block m, fl)"
    using s1 by (auto simp: m init_start_def and_then_Inr_iff)
  have f0: "features S 0 = initial_features S" by (simp add: features_def)
  from s2 have s2': "init_downstream_loop F S [0..depth S - 1] (features S 0) [] d1
      = Inr (conv_down, d2)"
    by (simp add: init_downstream_def range_def f0)
  from init_downstream_loop_ops [OF s2'] obtain new where
    new: "conv_down = new" "length new = length [0..depth S - 1]"
      "\<forall>i. 0 \<le> i \<and> i \<le> depth S - 1 \<longrightarrow>
           (\<exists>fl. conv_op_factory F S (features S i) (features S (i + 1))
                    ''down'' (Some i) = Inr (new ! nat (i - 0), fl))"
    by auto
  show "length (conv_down_ops m) = nat (depth S)"
    using new(1,2) len by (simp add: m)
  show "\<exists>fl. conv_op_factory F S (features S i) (features S (i + 1)) ''down'' (Some i)
                  = Inr (conv_down_ops m ! nat i, fl)" if "0 \<le> i" "i < depth S"
    using new(1,3) that by (simp add: m)
  from s3 obtain ic oc where
    b1: "int_num_features S ''down'' (Some (depth S - 1)) = Inr ic"
    and b2: "int_num_features S ''bottom'' None = Inr oc"
    and b3: "\<exists>fl. conv_op_factory F S ic oc ''bottom'' None = Inr (bottom, fl)"
    by (auto simp: init_bottom_def and_then_Inr_iff)
  from int_num_features_down_Inr [OF b1] have ic: "ic = features S (depth S)" by auto
  from b2 dp have oc: "oc = features S (depth S + 1)"
    by (simp add: int_num_features_bottom features_eq)
  show "\<exists>fl. conv_op_factory F S (features S (depth S)) (features S (depth S + 1))
                ''bottom'' None = Inr (conv_bottom_op m, fl)"
    using b3 by (simp add: m ic oc)
  have inv0: "inv_index S 0 + 2 = depth S + 1" by (simp add: inv_index_def)
  from s4 have s4': "init_upstream_loop F S [0..depth S - 1]
      (features S (inv_index S 0 + 2)) [] d3 = Inr (conv_up, d4)"
    unfolding inv0 using dp
    by (simp add: init_upstream_def range_def int_num_features_bottom features_eq)
  from init_upstream_loop_ops [OF s4'] obtain new' where
    new': "conv_up = new'" "length new' = length [0..depth S - 1]"
      "\<forall>i. 0 \<le> i \<and> i \<le> depth S - 1 \<longrightarrow>
           (\<exists>fl. conv_op_factory F S
                    (features S (inv_index S i + 2) + features S (inv_index S i + 1))
                    (features S (inv_index S i + 1))
                    ''up'' (Some (inv_index S i)) = Inr (new' ! nat (i - 0), fl))"
    by auto
  show "length (conv_up_ops m) = nat (depth S)"
    using new'(1,2) len by (simp add: m)
  show "\<exists>fl. conv_op_factory F S
                  (features S (inv_index S i + 2) + features S (inv_index S i + 1))
                  (features S (inv_index S i + 1)) ''up'' (Some (inv_index S i))
                  = Inr (conv_up_ops m ! nat i, fl)" if "0 \<le> i" "i < depth S"
    using new'(1,3) that by (simp add: m)
  have g3: "int_num_features S ''up'' (Some 0) = Inr (features S 1)"
    by (simp add: int_num_features_ok features_def)
  show "\<exists>fl. conv_op_factory F S (features S 1) (out_channels S) ''end'' None
              = Inr (end_block m, fl)"
    using s5 by (auto simp: m init_end_def g3 and_then_Inr_iff)
  from comprehension_nth [OF s6 [unfolded init_downsample_def range_def]]
  have c6: "length down_ops = length [0..depth S - 1]"
    "\<forall>k < length [0..depth S - 1]. downsample_op_factory F S ([0..depth S - 1] ! k)
        = Inr (down_ops ! k)"
    by auto
  show "length (downsample_ops m) = nat (depth S)"
    using c6(1) len by (simp add: m)
  show "downsample_op_factory F S i = Inr (downsample_ops m ! nat i)"
    if "0 \<le> i" "i < depth S"
    using c6(2) [rule_format, of "nat i"] that upto_nth [of 0 i "depth S - 1"]
    by (simp add: m)
  from comprehension_nth [OF s7 [unfolded init_upsample_def range_def]]
  have c7: "length up_ops = length [0..depth S - 1]"
    "\<forall>k < length [0..depth S - 1].
        upsample_op_factory F S (inv_index S ([0..depth S - 1] ! k)) = Inr (up_ops ! k)"
    by auto
  show "length (upsample_ops m) = nat (depth S)"
    using c7(1) len by (simp add: m)
  show "upsample_op_factory F S (inv_index S i) = Inr (upsample_ops m ! nat i)"
    if "0 \<le> i" "i < depth S"
    using c7(2) [rule_format, of "nat i"] that upto_nth [of 0 i "depth S - 1"]
    by (simp add: m)
qed

subsection \<open>The class \<open>UNet\<close>\<close>

lemma UNet_flag_False:
  "UNet_conv_op_factory L self ic oc part di = Inr cf \<Longrightarrow> \<not> snd cf"
  by (auto simp: UNet_conv_op_factory_def and_then_Inr_iff)

lemma UNet_not_flagged: "\<not> flagged (UNet_class L) self k"
  by (auto simp: flagged_def UNet_class_def split: option.splits sum.splits
        dest: UNet_flag_False)

text \<open>
  In the shape-level interpretation a forward pass of a shape correct model returns on
  every tensor of rank \<open>dim + 2\<close> with \<open>in_channels\<close> channels whose spatial extents are
  positive multiples of \<open>2^depth\<close>, and its last output has the shape of the input with
  \<open>out_channels\<close> channels.
\<close>

lemma maps_channelsD:
  "maps_channels d i oc f \<Longrightarrow> int (length (shape x)) = d + 2 \<Longrightarrow> int (shape x ! 1) = i \<Longrightarrow>
     \<exists>y. f x = Inr y \<and> shape y = (shape x)[1 := nat oc]"
  by (auto simp: maps_channels_def)

lemma sh_conv_maps: "\<exists>f. sh_conv d i oc k = Inr f \<and> maps_channels d i oc f"
  by (auto simp: sh_conv_def maps_channels_def)

lemma Sequential_maps:
  assumes "maps_channels d i oc f" "maps_channels d oc oc h" "0 \<le> d" "0 \<le> oc"
  shows "maps_channels d i oc (Sequential f h)"
  unfolding maps_channels_def
proof (intro allI impI)
  fix x :: shaped
  assume x: "int (length (shape x)) = d + 2 \<and> int (shape x ! 1) = i"
  with maps_channelsD [OF assms(1)] obtain y where
    y: "f x = Inr y" "shape y = (shape x)[1 := nat oc]" by blast
  have "int (length (shape y)) = d + 2" using x y by simp
  moreover have "int (shape y ! 1) = oc" using x y assms(3,4) by simp
  ultimately obtain z where "h y = Inr z" "shape z = (shape y)[1 := nat oc]"
    using maps_channelsD [OF assms(2)] by blast
  then show "\<exists>z. Sequential f h x = Inr z \<and> shape z = (shape x)[1 := nat oc]"
    using y by (simp add: Sequential_def)
qed

lemma UNet_factory_sh_maps:
  assumes "0 \<le> dim S" "0 \<le> oc" "part = ''end'' \<longrightarrow> oc = out_channels S"
  shows "\<exists>f. conv_op_factory (UNet_class sh_layers) S i oc part di = Inr (f, False)
           \<and> maps_channels (dim S) i oc f"
proof -
  obtain f1 where f1: "sh_conv (dim S) i oc 3 = Inr f1" "maps_channels (dim S) i oc f1"
    using sh_conv_maps by blast
  obtain f2 where f2: "sh_conv (dim S) oc oc 3 = Inr f2" "maps_channels (dim S) oc oc f2"
    using sh_conv_maps by blast
  obtain f3 where f3: "sh_conv (dim S) i oc 1 = Inr f3" "maps_channels (dim S) i oc f3"
    using sh_conv_maps by blast
  show ?thesis
    using f1 f2 f3 assms Sequential_maps [OF f1(2) f2(2)]
    by (auto simp: UNet_class_def UNet_conv_op_factory_def sh_layers_def)
qed

lemma sh_pool_op:
  "dim S \<in> {1, 2, 3} \<Longrightarrow>
   downsample_op_factory (UNet_class sh_layers) S i =
     Inr (\<lambda>x. if int (length (shape x)) = dim S + 2
                   \<and> list_all (\<lambda>n. 2 \<le> n) (drop 2 (shape x))
              then Inr (x\<lparr> shape := take 2 (shape x) @ map (\<lambda>n. n div 2) (drop 2 (shape x)),
                          applied := applied x @ [''pool''] \<rparr>)
              else Inl RuntimeError)"
  by (auto simp: UNet_class_def UNetBase_downsample_op_factory_def sh_layers_def sh_pool_def)

lemma sh_upsample_op:
  "upsample_kwargs S = make_upsample_kwargs dm um \<Longrightarrow>
   upsample_op_factory (UNet_class sh_layers) S i =
     Inr (\<lambda>x. Inr (x\<lparr> shape := take 2 (shape x) @ map (\<lambda>n. n * 2) (drop 2 (shape x)),
                      applied := applied x @ [''upsample''] \<rparr>))"
  by (simp add: UNet_class_def UNetBase_upsample_op_factory_def sh_layers_def sh_upsample_def
      make_upsample_kwargs_def Let_def)

lemma div_pow_ge_2:
  fixes s :: nat
  assumes "0 < s" "2 ^ D dvd s" "a < D"
  shows "2 \<le> s div 2 ^ a"
proof -
  from assms(2) obtain q where q: "s = 2 ^ D * q" by (auto elim: dvdE)
  with assms(1) have q0: "0 < q" by (cases q) auto
  have "(2::nat) ^ D = 2 ^ a * 2 ^ (D - a)" using assms(3) by (simp flip: power_add)
  then have "s div 2 ^ a = 2 ^ (D - a) * q" by (simp add: q mult.assoc)
  moreover have "(2::nat) ^ 1 \<le> 2 ^ (D - a)" using assms(3) by (intro power_increasing) auto
  ultimately show ?thesis using q0
    by (metis One_nat_def Suc_leI mult.right_neutral mult_le_mono power_one_right)
qed

lemma div_pow_Suc: "(s::nat) div 2 ^ a div 2 = s div 2 ^ Suc a"
proof -
  have "s div 2 ^ Suc a = s div (2 ^ a * 2)" by (simp add: mult.commute)
  also have "\<dots> = s div 2 ^ a div 2" by (rule div_mult2_eq)
  finally show ?thesis by simp
qed

lemma div_pow_double:
  fixes s :: nat
  assumes "2 ^ Suc j dvd s"
  shows "s div 2 ^ Suc j * 2 = s div 2 ^ j"
proof -
  from assms obtain q where q: "s = 2 ^ Suc j * q" by (auto elim: dvdE)
  have "s div 2 ^ j = 2 * q" by (simp add: q)
  moreover have "s div 2 ^ Suc j = q" unfolding q by simp
  ultimately show ?thesis by simp
qed

lemma features_nonneg:
  "0 \<le> initial_features S \<Longrightarrow> 0 \<le> gain S \<Longrightarrow> 0 \<le> features S e"
  by (simp add: features_def)

lemma level_simps [simp]:
  "length (level bs c sp k) = Suc (Suc (length sp))"
  "level bs c sp k ! Suc 0 = c"
  "(level bs c sp k)[Suc 0 := c'] = level bs c' sp k"
  "take 2 (level bs c sp k) = [bs, c]"
  "drop 2 (level bs c sp k) = map (\<lambda>s. s div 2 ^ k) sp"
  by (simp_all add: level_def numeral_2_eq_2)

lemma item_nat: "0 \<le> i \<Longrightarrow> nat i < length xs \<Longrightarrow> item xs i = Inr (xs ! nat i)"
  by (simp add: item_def Let_def)

lemma assert_channels_level:
  "shape t = level bs c sp k \<Longrightarrow> e = Inr (int c) \<Longrightarrow> assert_channels sh_torch t e = Inr ()"
  by (simp add: assert_channels_def sh_torch_def item_def Let_def)

lemma sh_forward_down:
  fixes m :: "shaped unet"
  assumes wf: "shape_correct m" and S: "S = conf m" and D: "D = depth S"
    and sp: "int (length sp) = dim S" "\<forall>s \<in> set sp. 0 < s \<and> 2 ^ nat D dvd s"
  shows "n = nat (D - a) \<Longrightarrow> 0 \<le> a \<Longrightarrow> a \<le> D \<Longrightarrow>
     shape out = level bs (nat (features S a)) sp (nat a) \<Longrightarrow>
     \<exists>out' new so'. forward_down sh_torch m [a..D - 1] out dr so = Inr (out', dr @ new, so')
        \<and> shape out' = level bs (nat (features S D)) sp (nat D)
        \<and> length new = nat (D - a)
        \<and> (\<forall>i. a \<le> i \<and> i < D \<longrightarrow>
              shape (new ! nat (i - a)) = level bs (nat (features S (i + 1))) sp (nat i))"
proof (induction n arbitrary: a out dr so)
  case 0
  then have "a = D" by simp
  with 0 show ?case by auto
next
  case (Suc n)
  then have aD: "a < D" and a0: "0 \<le> a" by auto
  have ab: "[a..D - 1] = a # [a + 1..D - 1]" using aD by (simp add: upto_rec1)
  from wf have nn: "0 \<le> initial_features S" "0 \<le> gain S"
    and lens: "length (conv_down_ops m) = nat D" "length (downsample_ops m) = nat D"
    and cv: "maps_channels (dim S) (features S a) (features S (a + 1)) (conv_down_ops m ! nat a)"
    and pl: "halves (dim S) (downsample_ops m ! nat a)"
    using aD a0 unfolding shape_correct_def Let_def S [symmetric] D [symmetric] by auto
  have i1: "item (conv_down_ops m) a = Inr (conv_down_ops m ! nat a)"
    using aD a0 lens by (intro item_nat) auto
  have i2: "item (downsample_ops m) a = Inr (downsample_ops m ! nat a)"
    using aD a0 lens by (intro item_nat) auto
  have rank: "int (length (shape out)) = dim S + 2"
    using Suc.prems(4) sp(1) by simp
  have ch: "int (shape out ! 1) = features S a"
    using Suc.prems(4) features_nonneg [OF nn] by simp
  from maps_channelsD [OF cv rank ch] obtain y where
    y: "(conv_down_ops m ! nat a) out = Inr y"
       "shape y = level bs (nat (features S (a + 1))) sp (nat a)"
    using Suc.prems(4) by auto
  have g: "int_num_features (conf m) ''down'' (Some a) = Inr (int (nat (features S (a + 1))))"
    using a0 features_nonneg [OF nn, of "a + 1"]
    by (simp add: int_num_features_ok features_eq S)
  have as: "assert_channels sh_torch y (int_num_features (conf m) ''down'' (Some a)) = Inr ()"
    using y(2) g by (rule assert_channels_level)
  have big: "\<forall>k \<in> set (drop 2 (shape y)). 2 \<le> k"
    using sp(2) aD a0 by (auto simp: y(2) intro!: div_pow_ge_2 [where D = "nat D"])
  have ranky: "int (length (shape y)) = dim S + 2" using y(2) sp(1) by simp
  from pl ranky big obtain z where
    z: "(downsample_ops m ! nat a) y = Inr z"
       "shape z = take 2 (shape y) @ map (\<lambda>n. n div 2) (drop 2 (shape y))"
    unfolding halves_def by blast
  have nat1: "nat (a + 1) = Suc (nat a)" using a0 by simp
  have shz: "shape z = level bs (nat (features S (a + 1))) sp (nat (a + 1))"
    unfolding z(2) y(2) nat1 by (simp add: level_def div_pow_Suc comp_def)
  let ?so = "if od_in (KTup ''down'' a) (side_out_num_channels m) then so @ [y] else so"
  have n': "n = nat (D - (a + 1))" using Suc.prems(1) by linarith
  have a1: "0 \<le> a + 1" "a + 1 \<le> D" using a0 aD by auto
  from Suc.IH [OF n' a1 shz, of "dr @ [y]" ?so]
  obtain out' new so' where
    r: "forward_down sh_torch m [a + 1..D - 1] z (dr @ [y]) ?so = Inr (out', (dr @ [y]) @ new, so')"
       "shape out' = level bs (nat (features S D)) sp (nat D)"
       "length new = nat (D - (a + 1))"
       "\<forall>i. a + 1 \<le> i \<and> i < D \<longrightarrow>
              shape (new ! nat (i - (a + 1))) = level bs (nat (features S (i + 1))) sp (nat i)"
    by blast
  have fd: "forward_down sh_torch m [a..D - 1] out dr so = Inr (out', dr @ (y # new), so')"
    unfolding ab using i1 i2 y(1) as z(1) r(1) by simp
  have "shape ((y # new) ! nat (i - a)) = level bs (nat (features S (i + 1))) sp (nat i)"
    if "a \<le> i" "i < D" for i
  proof (cases "i = a")
    case True
    then show ?thesis using y(2) by simp
  next
    case False
    with that have i: "a + 1 \<le> i" by simp
    then have "nat (i - a) = Suc (nat (i - (a + 1)))" by simp
    then show ?thesis using r(4) i that(2) by simp
  qed
  then show ?case
    using fd r(2,3) aD by (intro exI [of _ out'] exI [of _ "y # new"] exI [of _ so']) auto
qed

lemma pow_dvd_le:
  fixes s :: nat
  shows "2 ^ D dvd s \<Longrightarrow> k \<le> D \<Longrightarrow> 2 ^ k dvd s"
  using power_le_dvd by blast

lemma sh_forward_up:
  fixes m :: "shaped unet"
  assumes wf: "shape_correct m" and S: "S = conf m" and D: "D = depth S"
    and sp: "int (length sp) = dim S" "\<forall>s \<in> set sp. 0 < s \<and> 2 ^ nat D dvd s"
    and skips: "length skips = nat D"
      "\<forall>i. 0 \<le> i \<and> i < D \<longrightarrow>
         shape (skips ! nat i)
           = level bs (nat (features S (inv_index S i + 1))) sp (nat (inv_index S i))"
  shows "n = nat (D - a) \<Longrightarrow> 0 \<le> a \<Longrightarrow> a \<le> D \<Longrightarrow>
     shape out = level bs (nat (features S (D - a + 1))) sp (nat (D - a)) \<Longrightarrow>
     \<exists>out' so'. forward_up sh_torch m [a..D - 1] skips out so = Inr (out', so')
        \<and> shape out' = level bs (nat (features S 1)) sp 0"
proof (induction n arbitrary: a out so)
  case 0
  then have "a = D" by simp
  with 0 show ?case by auto
next
  case (Suc n)
  then have aD: "a < D" and a0: "0 \<le> a" by auto
  let ?j = "inv_index S a"
  have j: "?j = D - 1 - a" "0 \<le> ?j" "?j < D" using aD a0 by (auto simp: inv_index_def D)
  have ab: "[a..D - 1] = a # [a + 1..D - 1]" using aD by (simp add: upto_rec1)
  from wf have nn: "0 \<le> initial_features S" "0 \<le> gain S"
    and lens: "length (upsample_ops m) = nat D" "length (conv_up_ops m) = nat D"
    and up: "doubles (upsample_ops m ! nat a)"
    and cv: "maps_channels (dim S) (features S (?j + 2) + features S (?j + 1))
               (features S (?j + 1)) (conv_up_ops m ! nat a)"
    using aD a0 unfolding shape_correct_def Let_def S [symmetric] D [symmetric] by auto
  have i1: "item (upsample_ops m) a = Inr (upsample_ops m ! nat a)"
    using aD a0 lens by (intro item_nat) auto
  have i2: "item (conv_up_ops m) a = Inr (conv_up_ops m ! nat a)"
    using aD a0 lens by (intro item_nat) auto
  have i3: "item skips a = Inr (skips ! nat a)"
    using aD a0 skips(1) by (intro item_nat) auto
  have e1: "D - a + 1 = ?j + 2" "nat (D - a) = Suc (nat ?j)" using j aD a0 by auto
  from up obtain y where
    y: "(upsample_ops m ! nat a) out = Inr y"
       "shape y = take 2 (shape out) @ map (\<lambda>n. n * 2) (drop 2 (shape out))"
    unfolding doubles_def by blast
  have dbl: "map (\<lambda>n. n * 2) (map (\<lambda>s. s div 2 ^ Suc (nat ?j)) sp)
      = map (\<lambda>s. s div 2 ^ nat ?j) sp"
  proof -
    have "s div 2 ^ Suc (nat ?j) * 2 = s div 2 ^ nat ?j" if "s \<in> set sp" for s
    proof -
      from sp(2) that have "2 ^ nat D dvd s" by blast
      moreover have "Suc (nat ?j) \<le> nat D" using j by simp
      ultimately have "2 ^ Suc (nat ?j) dvd s" by (rule pow_dvd_le)
      then show ?thesis by (rule div_pow_double)
    qed
    then show ?thesis by (simp add: comp_def)
  qed
  have shy: "shape y = level bs (nat (features S (?j + 2))) sp (nat ?j)"
    unfolding y(2) Suc.prems(4) e1 using dbl by (simp add: level_def)
  have sha: "shape (skips ! nat a) = level bs (nat (features S (?j + 1))) sp (nat ?j)"
    using skips(2) aD a0 by simp
  have g1: "int_num_features (conf m) ''down'' (Some (inv_index (conf m) a))
      = Inr (int (nat (features S (?j + 1))))"
    using j features_nonneg [OF nn, of "?j + 1"]
    by (simp add: int_num_features_ok features_eq S [symmetric])
  have g2: "int_num_features (conf m) ''up'' (Some (inv_index (conf m) a))
      = Inr (int (nat (features S (?j + 1))))"
    using j features_nonneg [OF nn, of "?j + 1"]
    by (simp add: int_num_features_ok features_eq S [symmetric])
  have as1: "assert_channels sh_torch (skips ! nat a)
      (int_num_features (conf m) ''down'' (Some (inv_index (conf m) a))) = Inr ()"
    using sha g1 by (rule assert_channels_level)
  obtain z where z: "cat sh_torch [skips ! nat a, y] 1 = Inr z"
    "shape z = level bs (nat (features S (?j + 1)) + nat (features S (?j + 2))) sp (nat ?j)"
    using sha shy by (simp add: sh_torch_def sh_cat_def level_def)
  have rankz: "int (length (shape z)) = dim S + 2" using z(2) sp(1) by simp
  have chz: "int (shape z ! 1) = features S (?j + 2) + features S (?j + 1)"
    using z(2) features_nonneg [OF nn, of "?j + 1"] features_nonneg [OF nn, of "?j + 2"]
    by simp
  from maps_channelsD [OF cv rankz chz] obtain w where
    w: "(conv_up_ops m ! nat a) z = Inr w"
       "shape w = level bs (nat (features S (?j + 1))) sp (nat ?j)"
    using z(2) by auto
  have as2: "assert_channels sh_torch w
      (int_num_features (conf m) ''up'' (Some (inv_index (conf m) a))) = Inr ()"
    using w(2) g2 by (rule assert_channels_level)
  have n': "n = nat (D - (a + 1))" using Suc.prems(1) by linarith
  have a1: "0 \<le> a + 1" "a + 1 \<le> D" using a0 aD by auto
  have e2: "D - (a + 1) + 1 = ?j + 1" "nat (D - (a + 1)) = nat ?j" using j by auto
  have shw: "shape w = level bs (nat (features S (D - (a + 1) + 1))) sp (nat (D - (a + 1)))"
    unfolding e2 by (rule w(2))
  let ?so = "if od_in (KTup ''up'' (inv_index (conf m) a)) (side_out_num_channels m)
             then so @ [w] else so"
  from Suc.IH [OF n' a1 shw, of ?so]
  obtain out' so' where
    r: "forward_up sh_torch m [a + 1..D - 1] skips w ?so = Inr (out', so')"
       "shape out' = level bs (nat (features S 1)) sp 0"
    by blast
  have "forward_up sh_torch m [a..D - 1] skips out so = Inr (out', so')"
    unfolding ab using i1 i2 i3 y(1) as1 z(1) w(1) as2 r(1) by simp
  with r(2) show ?case by blast
qed

lemma ds_steps_ge:
  "0 < n \<Longrightarrow> 2 ^ k dvd n \<Longrightarrow> k \<le> max_allowed_ds_steps_impl n 2"
proof (induction k arbitrary: n)
  case 0
  then show ?case by simp
next
  case (Suc k)
  from Suc.prems(2) obtain q where q: "n = 2 ^ Suc k * q" by (auto elim: dvdE)
  with Suc.prems(1) have q0: "0 < q" by (cases q) auto
  have n2: "n div 2 = 2 ^ k * q" by (simp add: q)
  have "k \<le> max_allowed_ds_steps_impl (n div 2) 2"
    using q0 by (intro Suc.IH) (simp_all add: n2)
  moreover have "2 dvd n" by (simp add: q)
  ultimately show ?case
    using Suc.prems(1) by (simp add: max_allowed_ds_steps_impl.simps [of n])
qed

lemma fold_min_steps_ge:
  "\<forall>s \<in> set shp. k \<le> max_allowed_ds_steps_impl s f \<Longrightarrow>
   (case acc of None \<Rightarrow> True | Some a \<Rightarrow> k \<le> a) \<Longrightarrow>
   (case fold (\<lambda>s min_steps.
           (case min_steps of
              None \<Rightarrow> Some (max_allowed_ds_steps_impl s f)
            | Some m \<Rightarrow> Some (min m (max_allowed_ds_steps_impl s f)))) shp acc
    of None \<Rightarrow> True | Some a \<Rightarrow> k \<le> a)"
proof (induction shp arbitrary: acc)
  case Nil
  then show ?case by simp
next
  case (Cons t shp)
  show ?case
    using Cons.prems by (cases acc) (auto intro!: Cons.IH)
qed

lemma check_scaling_ok:
  assumes "2 \<le> length (tsize T x)" "int (length (tsize T x)) = 2 + dim (conf self)"
    and "\<forall>s \<in> set (drop 2 (tsize T x)). 0 < s \<and> 2 ^ nat (depth (conf self)) dvd s"
  shows "check_scaling T self x = Inr ()"
proof -
  have "\<forall>s \<in> set (drop 2 (tsize T x)).
      nat (depth (conf self)) \<le> max_allowed_ds_steps_impl s 2"
    using assms(3) by (auto intro: ds_steps_ge)
  from fold_min_steps_ge [OF this, of None]
  have "case max_allowed_ds_steps (drop 2 (tsize T x)) 2 of None \<Rightarrow> True
        | Some a \<Rightarrow> nat (depth (conf self)) \<le> a"
    by (simp add: max_allowed_ds_steps_def)
  then show ?thesis
    by (auto simp: check_scaling_def py_slice_spatial [OF assms(1,2)] split: option.splits)
qed

lemma level_0: "level bs c sp 0 = bs # c # sp"
  by (simp add: level_def)

lemma sh_forward_total:
  fixes m :: "shaped unet"
  assumes wf: "shape_correct m" and S: "S = conf m" and D: "D = depth S"
    and x: "shape x = bs # c # sp" "int c = in_channels S"
    and sp: "int (length sp) = dim S" "\<forall>s \<in> set sp. 0 < s \<and> 2 ^ nat D dvd s"
  shows "\<exists>r t. forward sh_torch m (TensorInput x) = Inr r
           \<and> shape t = bs # nat (out_channels S) # sp
           \<and> (r = Single t \<or> (\<exists>ts. r = Tuple (ts @ [t])))"
proof -
  from wf have nn: "0 \<le> initial_features S" "0 \<le> gain S" and D0: "0 \<le> D"
    and st: "maps_channels (dim S) (in_channels S) (initial_features S) (start_block m)"
    and bt: "maps_channels (dim S) (features S D) (features S (D + 1)) (conv_bottom_op m)"
    and en: "maps_channels (dim S) (features S 1) (out_channels S) (end_block m)"
    unfolding shape_correct_def Let_def S [symmetric] D [symmetric] by auto
  have fnn: "0 \<le> features S e" for e using nn by (rule features_nonneg)
  have rank: "int (length (shape x)) = dim S + 2" using x(1) sp(1) by simp
  have sc: "check_scaling sh_torch m x = Inr ()"
    using x(1) sp by (intro check_scaling_ok) (auto simp: sh_torch_def S D)
  have sanity: "forward_sanity_check sh_torch m (TensorInput x) = Inr ()"
    using x sp(1) sc by (simp add: forward_sanity_check_def sh_torch_def item_def Let_def S)
  from maps_channelsD [OF st rank] x obtain s0 where
    s0: "start_block m x = Inr s0" "shape s0 = level bs (nat (features S 0)) sp (nat 0)"
    by (auto simp: level_0 features_def)
  let ?so0 = "if od_in (KStr ''start'') (side_out_num_channels m) then [s0] else []"
  from sh_forward_down [OF wf S D sp refl _ D0 s0(2), of "[]" ?so0]
  obtain e new so1 where
    dn: "forward_down sh_torch m [0..D - 1] s0 [] ?so0 = Inr (e, new, so1)"
      "shape e = level bs (nat (features S D)) sp (nat D)"
      "length new = nat D"
      "\<forall>i. 0 \<le> i \<and> i < D \<longrightarrow>
          shape (new ! nat i) = level bs (nat (features S (i + 1))) sp (nat i)"
    by auto
  have g1: "int_num_features (conf m) ''down'' (Some (depth (conf m) - 1))
      = Inr (int (nat (features S D)))"
    using D0 fnn [of D] by (simp add: int_num_features_ok features_eq S [symmetric] D [symmetric])
  have as1: "assert_channels sh_torch e
      (int_num_features (conf m) ''down'' (Some (depth (conf m) - 1))) = Inr ()"
    using dn(2) g1 by (rule assert_channels_level)
  have ranke: "int (length (shape e)) = dim S + 2" using dn(2) sp(1) by simp
  have che: "int (shape e ! 1) = features S D" using dn(2) fnn [of D] by simp
  from maps_channelsD [OF bt ranke che] obtain b where
    b: "conv_bottom_op m e = Inr b" "shape b = level bs (nat (features S (D + 1))) sp (nat D)"
    using dn(2) by auto
  have g2: "int_num_features (conf m) ''bottom'' None = Inr (int (nat (features S (D + 1))))"
    using D0 fnn [of "D + 1"]
    by (simp add: int_num_features_bottom features_eq S [symmetric] D [symmetric])
  have as2: "assert_channels sh_torch b (int_num_features (conf m) ''bottom'' None) = Inr ()"
    using b(2) g2 by (rule assert_channels_level)
  have skips: "shape (rev new ! nat i)
      = level bs (nat (features S (inv_index S i + 1))) sp (nat (inv_index S i))"
    if "0 \<le> i" "i < D" for i
  proof -
    have j: "0 \<le> inv_index S i" "inv_index S i < D" using that by (auto simp: inv_index_def D)
    have "rev new ! nat i = new ! (length new - Suc (nat i))"
      using that dn(3) by (intro rev_nth) auto
    also have "length new - Suc (nat i) = nat (inv_index S i)"
      using that dn(3) by (simp add: inv_index_def D)
    finally show ?thesis using dn(4) j by simp
  qed
  let ?so2 = "if od_in (KStr ''bottom'') (side_out_num_channels m) then so1 @ [b] else so1"
  have shb: "shape b = level bs (nat (features S (D - 0 + 1))) sp (nat (D - 0))"
    using b(2) by simp
  from sh_forward_up [OF wf S D sp _ _ refl _ D0 shb, of "rev new" ?so2] dn(3) skips
  obtain u so3 where
    up: "forward_up sh_torch m [0..D - 1] (rev new) b ?so2 = Inr (u, so3)"
      "shape u = level bs (nat (features S 1)) sp 0"
    by auto
  have g3: "int_num_features (conf m) ''up'' (Some 0) = Inr (int (nat (features S 1)))"
    using fnn [of 1] by (simp add: int_num_features_ok features_def S [symmetric])
  have as3: "assert_channels sh_torch u (int_num_features (conf m) ''up'' (Some 0)) = Inr ()"
    using up(2) g3 by (rule assert_channels_level)
  have ranku: "int (length (shape u)) = dim S + 2" using up(2) sp(1) by simp
  have chu: "int (shape u ! 1) = features S 1" using up(2) fnn [of 1] by simp
  from maps_channelsD [OF en ranku chu] obtain t where
    t: "end_block m u = Inr t" "shape t = bs # nat (out_channels S) # sp"
    using up(2) by (auto simp: level_0)
  have fw: "forward sh_torch m (TensorInput x)
      = Inr (if length (so3 @ [t]) = 1 then Single ((so3 @ [t]) ! 0) else Tuple (so3 @ [t]))"
    using sanity s0(1) dn(1) as1 b(1) as2 up(1) as3 t(1)
    by (simp add: forward_def range_def S [symmetric] D [symmetric] Let_def if_Inr
          del: length_append)
  show ?thesis
    using fw t(2)
    by (intro exI [of _ "if length (so3 @ [t]) = 1 then Single ((so3 @ [t]) ! 0)
                         else Tuple (so3 @ [t])"] exI [of _ t]) auto
qed

lemma UNet_sh_shape_correct:
  assumes init: "UNetBase_init (UNet_class sh_layers) dm ic nf (Some oc) dp g um = Inr m"
    and nn: "0 \<le> nf" "0 \<le> g" "0 \<le> oc"
  shows "shape_correct m"
proof -
  let ?F = "UNet_class sh_layers :: shaped factories"
  define S where "S = \<lparr> in_channels = ic, initial_features = nf, dim = dm, out_channels = oc,
     depth = dp, gain = g, upsample_kwargs = make_upsample_kwargs dm um \<rparr>"
  from UNetBase_init_parts [OF init] have dm: "dm \<in> {1, 2, 3}"
    and ip: "init_parts ?F S = Inr m"
    by (auto simp: S_def)
  from init_parts_keys [OF ip] have cm: "conf m = S" and D0: "0 \<le> depth S" by auto
  have f: "dim S = dm" "initial_features S = nf" "gain S = g" "out_channels S = oc"
    "in_channels S = ic" "upsample_kwargs S = make_upsample_kwargs dm um"
    by (simp_all add: S_def)
  have d0: "0 \<le> dim S" "dim S \<in> {1, 2, 3}" using dm f by auto
  have fnn: "0 \<le> features S e" for e using nn f by (intro features_nonneg) auto
  note ops = init_parts_ops [OF ip]
  have maps: "maps_channels (dim S) i c h"
    if "\<exists>fl. conv_op_factory ?F S i c part di = Inr (h, fl)" "0 \<le> c"
      "part = ''end'' \<longrightarrow> c = out_channels S" for i c part di h
    using UNet_factory_sh_maps [OF d0(1) that(2,3), of i di] that(1) by auto
  have 1: "maps_channels (dim S) (in_channels S) (initial_features S) (start_block m)"
    using ops(1) nn f by (intro maps) auto
  have 2: "maps_channels (dim S) (features S i) (features S (i + 1)) (conv_down_ops m ! nat i)"
    if "0 \<le> i" "i < depth S" for i
    using ops(3) [OF that] fnn by (intro maps) auto
  have 3: "maps_channels (dim S) (features S (depth S)) (features S (depth S + 1))
      (conv_bottom_op m)"
    using ops(4) fnn by (intro maps) auto
  have 4: "maps_channels (dim S)
      (features S (inv_index S i + 2) + features S (inv_index S i + 1))
      (features S (inv_index S i + 1)) (conv_up_ops m ! nat i)"
    if "0 \<le> i" "i < depth S" for i
    using ops(6) [OF that] fnn by (intro maps) auto
  have 5: "maps_channels (dim S) (features S 1) (out_channels S) (end_block m)"
    using ops(7) nn f by (intro maps) auto
  have 6: "halves (dim S) (downsample_ops m ! nat i)" if "0 \<le> i" "i < depth S" for i
  proof -
    have "downsample_ops m ! nat i =
       (\<lambda>x. if int (length (shape x)) = dim S + 2
                   \<and> list_all (\<lambda>n. 2 \<le> n) (drop 2 (shape x))
              then Inr (x\<lparr> shape := take 2 (shape x) @ map (\<lambda>n. n div 2) (drop 2 (shape x)),
                          applied := applied x @ [''pool''] \<rparr>)
              else Inl RuntimeError)"
      using ops(9) [OF that] sh_pool_op [OF d0(2), of i] by simp
    then show ?thesis by (simp add: halves_def list_all_iff)
  qed
  have 7: "doubles (upsample_ops m ! nat i)" if "0 \<le> i" "i < depth S" for i
  proof -
    have "upsample_ops m ! nat i =
       (\<lambda>x. Inr (x\<lparr> shape := take 2 (shape x) @ map (\<lambda>n. n * 2) (drop 2 (shape x)),
                      applied := applied x @ [''upsample''] \<rparr>))"
      using ops(11) [OF that] sh_upsample_op [OF f(6), of "inv_index S i"] by simp
    then show ?thesis by (simp add: doubles_def)
  qed
  show ?thesis
    unfolding shape_correct_def Let_def cm
    using D0 d0(1) nn f 1 2 3 4 5 6 7 ops(2,5,8,10) by simp
qed

lemma UNet_shape_level_forward:
  assumes init: "UNet_init sh_layers ic (Some oc) dm dp nf g fa = Inr m"
    and nn: "0 \<le> nf" "0 \<le> g" "0 \<le> oc"
    and x: "shape x = bs # c # sp" "int c = ic" "int (length sp) = dm"
      "\<forall>s \<in> set sp. 0 < s \<and> 2 ^ nat dp dvd s"
  shows "\<exists>t. forward sh_torch m (TensorInput x) = Inr (Single t)
           \<and> shape t = bs # nat oc # sp"
proof -
  from init have i: "UNetBase_init (UNet_class sh_layers) dm ic nf (Some oc) dp g None = Inr m"
    by (auto simp: UNet_init_def and_then_Inr_iff)
  from UNetBase_init_parts [OF i] init_parts_keys
  have cm: "conf m = \<lparr> in_channels = ic, initial_features = nf, dim = dm, out_channels = oc,
     depth = dp, gain = g, upsample_kwargs = make_upsample_kwargs dm None \<rparr>"
    by fastforce
  have wf: "shape_correct m" using i nn by (rule UNet_sh_shape_correct)
  from sh_forward_total [OF wf refl refl x(1), of ] x(2,3,4) cm
  obtain r t where r: "forward sh_torch m (TensorInput x) = Inr r"
    and t: "shape t = bs # nat oc # sp" "r = Single t \<or> (\<exists>ts. r = Tuple (ts @ [t]))"
    by auto
  from forward_flagged_outputs [OF i r] obtain outs where
    "let c = collected (flagged (UNet_class sh_layers) (conf m)) outs
     in r = (if length c = 1 then Single (c ! 0) else Tuple c)
        \<and> length c = length (filter (flagged (UNet_class sh_layers) (conf m))
                                (butlast (stage_order (conf m)))) + 1"
    by blast
  then have "\<exists>t'. r = Single t'" by (simp add: Let_def UNet_not_flagged)
  with t r show ?thesis by auto
qed

lemma unet_2d_Inr: "unet_2d = Inr (projr unet_2d)"
proof -
  have "\<not> isl unet_2d" by code_simp
  then show ?thesis by simp
qed

lemma unet_2d_forward:
  "forward sh_torch (projr unet_2d) (TensorInput image_32)
     = Inr (Single
       \<lparr>shape = [1, 2, 32, 32],
          applied =
            [''conv'', ''conv'', ''pool'', ''conv'', ''conv'', ''pool'',
             ''conv'', ''conv'', ''upsample'', ''cat'', ''conv'', ''conv'',
             ''upsample'', ''cat'', ''conv'', ''conv'', ''conv'']\<rparr>)"
  by code_simp

text \<open>
  C9: the conv-stage factory of \<open>UNet\<close> returns \<open>False\<close> with every operator, for every
  part and depth index; a forward pass of a \<open>UNet\<close> that returns gives a single tensor,
  never a tuple; and in the shape-level interpretation of the layers the forward pass of
  a \<open>UNet\<close> does return, on every valid input, a single tensor with \<open>out_channels\<close>
  channels and the spatial extents of the input.
\<close>

theorem UNet_forward_single_tensor:
  "(UNet_conv_op_factory L self ic oc part di = Inr cf \<longrightarrow> \<not> snd cf)
   \<and> (UNet_init L ic' oc' dm dp nf g fa = Inr m \<and> forward T m inp = Inr r
        \<longrightarrow> (\<exists>t. r = Single t))
   \<and> (UNet_init sh_layers ic' (Some oc'') dm dp nf g fa = Inr ms
        \<and> 0 \<le> nf \<and> 0 \<le> g \<and> 0 \<le> oc''
        \<and> shape x = bs # c # sp \<and> int c = ic' \<and> int (length sp) = dm
        \<and> (\<forall>s \<in> set sp. 0 < s \<and> 2 ^ nat dp dvd s)
        \<longrightarrow> (\<exists>t. forward sh_torch ms (TensorInput x) = Inr (Single t)
                  \<and> shape t = bs # nat oc'' # sp))"
proof (intro conjI impI)
  assume "UNet_conv_op_factory L self ic oc part di = Inr cf"
  then show "\<not> snd cf" by (rule UNet_flag_False)
next
  assume a: "UNet_init L ic' oc' dm dp nf g fa = Inr m \<and> forward T m inp = Inr r"
  then have i: "UNetBase_init (UNet_class L) dm ic' nf oc' dp g None = Inr m"
    by (auto simp: UNet_init_def and_then_Inr_iff)
  from forward_flagged_outputs [OF i] a obtain outs where
    "let c = collected (flagged (UNet_class L) (conf m)) outs
     in r = (if length c = 1 then Single (c ! 0) else Tuple c)
        \<and> length c = length (filter (flagged (UNet_class L) (conf m))
                                (butlast (stage_order (conf m)))) + 1"
    by blast
  then show "\<exists>t. r = Single t"
    by (simp add: Let_def UNet_not_flagged)
next
  assume "UNet_init sh_layers ic' (Some oc'') dm dp nf g fa = Inr ms
        \<and> 0 \<le> nf \<and> 0 \<le> g \<and> 0 \<le> oc''
        \<and> shape x = bs # c # sp \<and> int c = ic' \<and> int (length sp) = dm
        \<and> (\<forall>s \<in> set sp. 0 < s \<and> 2 ^ nat dp dvd s)"
  then show "\<exists>t. forward sh_torch ms (TensorInput x) = Inr (Single t)
                  \<and> shape t = bs # nat oc'' # sp"
    by (intro UNet_shape_level_forward) auto
qed

theorem UNet_forward_single_tensor_witness:
  "UNet_conv_op_factory sh_layers settings_2d 16 32 ''down'' (Some 1)
     = Inr (projr (UNet_conv_op_factory sh_layers settings_2d 16 32 ''down'' (Some 1)))
   \<and> \<not> snd (projr (UNet_conv_op_factory sh_layers settings_2d 16 32 ''down'' (Some 1)))
   \<and> UNet_init sh_layers 3 (Some 2) 2 2 8 2 None = Inr (projr unet_2d)
   \<and> forward sh_torch (projr unet_2d) (TensorInput image_32)
       = Inr (Single
           \<lparr>shape = [1, 2, 32, 32],
              applied =
                [''conv'', ''conv'', ''pool'', ''conv'', ''conv'', ''pool'',
                 ''conv'', ''conv'', ''upsample'', ''cat'', ''conv'', ''conv'',
                 ''upsample'', ''cat'', ''conv'', ''conv'', ''conv'']\<rparr>)
   \<and> (\<exists>t. forward sh_torch (projr unet_2d) (TensorInput image_32) = Inr (Single t)
          \<and> shape t = [1, 2, 32, 32])"
proof -
  have f: "UNet_conv_op_factory sh_layers settings_2d 16 32 ''down'' (Some 1)
     = Inr (projr (UNet_conv_op_factory sh_layers settings_2d 16 32 ''down'' (Some 1)))"
    by (simp add: UNet_conv_op_factory_def sh_layers_def sh_conv_def)
  have i: "UNet_init sh_layers 3 (Some 2) 2 2 8 2 None = Inr (projr unet_2d)"
    using unet_2d_Inr by (simp add: unet_2d_def)
  have x: "shape image_32 = 1 # 3 # [32, 32]" "\<forall>s \<in> set [32, 32::nat]. 0 < s \<and> 2 ^ nat 2 dvd s"
    by (simp_all add: image_32_def)
  from UNet_forward_single_tensor [of sh_layers settings_2d 16 32 "''down''" "Some 1"
      "projr (UNet_conv_op_factory sh_layers settings_2d 16 32 ''down'' (Some 1))"
      3 "Some 2" 2 2 8 2 None "projr unet_2d" sh_torch "TensorInput image_32"
      "Single \<lparr>shape = [1, 2, 32, 32],
              applied =
                [''conv'', ''conv'', ''pool'', ''conv'', ''conv'', ''pool'',
                 ''conv'', ''conv'', ''upsample'', ''cat'', ''conv'', ''conv'',
                 ''upsample'', ''cat'', ''conv'', ''conv'', ''conv'']\<rparr>"
      2 "projr unet_2d" image_32 1 3 "[32, 32]"] f i x unet_2d_forward
  show ?thesis by simp
qed

subsection \<open>Cityscapes\<close>

text \<open>
  C10: the construction of the dataset accepts exactly the seven split names of the
  mapping; it then opens the image archive with the canonical name of the split
  (\<open>train\<close>, \<open>val\<close> or \<open>test\<close>), which becomes \<open>self.split\<close>. For every other value of
  \<open>split\<close> it raises \<open>KeyError\<close> and no archive has been opened.
\<close>

theorem Cityscapes_split_names:
  "Cityscapes_init filelist root s =
     (if s \<in> set [''train'', ''training'', ''validate'', ''val'', ''validation'', ''test'',
                   ''testing'']
      then ([join root ''leftImg8bit_trainvaltest.zip''],
            and_then (make_dataset filelist (join root ''leftImg8bit_trainvaltest.zip'')
                        (Some (canonical_split s)))
              (\<lambda>paths. Inr \<lparr> image_zip_file = join root ''leftImg8bit_trainvaltest.zip'',
                               label_zip_file = join root ''gtFine_trainvaltest.zip'',
                               split = Some (canonical_split s), image_paths = paths \<rparr>))
      else ([], Inl KeyError))
   \<and> canonical_split s \<in> set [''train'', ''val'', ''test'']"
  by (simp add: Cityscapes_init_def assert_with_def SPLIT_NAME_MAPPING_def canonical_split_def
        Let_def)

end
